theory Spec2Isabelle
  imports Main "HOL-Library.Word"
begin

section \<open>Memory\<close>

text \<open>
  The containers of \<^verbatim>\<open>indexarray.c\<close> and \<^verbatim>\<open>collections.c\<close> work on raw memory: a
  bucket of bytes that \<^verbatim>\<open>memcpy\<close> and \<^verbatim>\<open>memset\<close> write, that growth replaces and
  that a view borrows from its caller. The memory is modelled by blocks: a pointer is
  \<open>Null\<close> or a block number with a byte offset, and the heap lists the blocks, each
  either live with its bytes or released. \<^verbatim>\<open>usize\<close> values are natural numbers
  (the model is exact for sizes that fit 64 bits) and the \<^verbatim>\<open>int\<close> results are
  integers; the conversions between the two are written out below.
\<close>

type_synonym byte = "8 word"

datatype ptr = Null | Ptr nat nat

type_synonym heap = "byte list option list"

abbreviation (input) OK :: int where "OK \<equiv> 0"
abbreviation (input) ERR :: int where "ERR \<equiv> - 1"

fun ptr_add :: "ptr \<Rightarrow> nat \<Rightarrow> ptr" where
  "ptr_add Null n = Null"
| "ptr_add (Ptr b off) n = Ptr b (off + n)"

text \<open>\<^verbatim>\<open>(char *)e - (char *)p\<close>, defined in C for two pointers into one block.\<close>

fun ptr_diff :: "ptr \<Rightarrow> ptr \<Rightarrow> nat" where
  "ptr_diff (Ptr b i) (Ptr c j) = i - j"
| "ptr_diff Null q = 0"
| "ptr_diff (Ptr b i) Null = 0"

text \<open>\<^verbatim>\<open>p >= q\<close>: by offset inside one block, by block number otherwise.\<close>

fun ptr_ge :: "ptr \<Rightarrow> ptr \<Rightarrow> bool" where
  "ptr_ge (Ptr b i) (Ptr c j) = (if b = c then j \<le> i else c < b)"
| "ptr_ge Null q = (q = Null)"
| "ptr_ge (Ptr b i) Null = True"

text \<open>
  Reading \<open>n\<close> bytes at a pointer and writing bytes at a pointer. An access outside a
  live block is undefined in C; the model reads nothing and writes nothing there. The
  operations on a well-formed container stay inside its bucket, and the theorems that
  speak of the bytes of a value take the value from a live block of the caller's.
\<close>

definition load :: "heap \<Rightarrow> ptr \<Rightarrow> nat \<Rightarrow> byte list" where
  "load h p n =
     (case p of
        Null \<Rightarrow> []
      | Ptr b off \<Rightarrow>
          (if b < length h then
             (case h ! b of None \<Rightarrow> [] | Some bs \<Rightarrow> take n (drop off bs))
           else []))"

definition store :: "heap \<Rightarrow> ptr \<Rightarrow> byte list \<Rightarrow> heap" where
  "store h p xs =
     (case p of
        Null \<Rightarrow> h
      | Ptr b off \<Rightarrow>
          (if b < length h then
             (case h ! b of
                None \<Rightarrow> h
              | Some bs \<Rightarrow>
                  (if off + length xs \<le> length bs then
                     h[b := Some (take off bs @ xs @ drop (off + length xs) bs)]
                   else h))
           else h))"

text \<open>
  \<^verbatim>\<open>memcpy(dst, src, n)\<close>: the \<open>n\<close> bytes at \<open>src\<close>, as the heap holds them at the
  call, are written at \<open>dst\<close>.
\<close>

definition memcpy :: "heap \<Rightarrow> ptr \<Rightarrow> ptr \<Rightarrow> nat \<Rightarrow> heap" where
  "memcpy h dst src n = store h dst (load h src n)"

text \<open>\<^verbatim>\<open>memset(p, 0, n)\<close>.\<close>

definition memset0 :: "heap \<Rightarrow> ptr \<Rightarrow> nat \<Rightarrow> heap" where
  "memset0 h p n = store h p (replicate n 0)"

text \<open>
  Modelled from the spec: the process-wide allocator (\<^verbatim>\<open>sigma.core/alloc.h\<close> is not
  among the sources), "assumed available as a capability: allocate(n)->buffer|null,
  deallocate(buffer)". What the allocator answers is an argument of every operation that
  may allocate: \<open>None\<close> when it has no memory, \<open>Some junk\<close> when it hands out a fresh
  block, whose \<open>n\<close> bytes are \<open>junk\<close> (cut or zero-padded to \<open>n\<close> bytes): the content
  of fresh memory is unspecified.
\<close>

definition Allocator_alloc :: "byte list option \<Rightarrow> nat \<Rightarrow> heap \<Rightarrow> ptr \<times> heap" where
  "Allocator_alloc reply n h =
     (case reply of
        None \<Rightarrow> (Null, h)
      | Some junk \<Rightarrow> (Ptr (length h) 0, h @ [Some (take n (junk @ replicate n 0))]))"

text \<open>
  \<^verbatim>\<open>Allocator.dispose\<close> releases the block the pointer points into (in C the pointer
  has to be the one the allocator returned; anything else is undefined there).
\<close>

fun Allocator_dispose :: "ptr \<Rightarrow> heap \<Rightarrow> heap" where
  "Allocator_dispose Null h = h"
| "Allocator_dispose (Ptr b off) h = (if b < length h then h[b := None] else h)"

text \<open>Whether the block a pointer points into is live.\<close>

fun live :: "heap \<Rightarrow> ptr \<Rightarrow> bool" where
  "live h Null = False"
| "live h (Ptr b off) = (b < length h \<and> h ! b \<noteq> None)"

text \<open>
  The two integer conversions at the interface, for an \<^verbatim>\<open>int\<close> of 32 bits and a
  \<^verbatim>\<open>usize\<close> (\<^verbatim>\<open>size_t\<close>) of 64 bits. \<^verbatim>\<open>indexarray_add\<close> returns
  \<^verbatim>\<open>(int)slot_index\<close> for a \<^verbatim>\<open>usize\<close> slot index: the low 32 bits, read in two's
  complement (what the compilers in use do for a value that does not fit), so that the
  handle is the index only below \<open>2^31 = 2147483648\<close>. In the other direction a caller
  passes the \<^verbatim>\<open>int\<close> handle where \<^verbatim>\<open>indexarray_get_at\<close>,
  \<^verbatim>\<open>indexarray_remove_at\<close> and \<^verbatim>\<open>indexarray_is_empty_slot\<close> take a \<^verbatim>\<open>usize\<close>
  index: the handle modulo \<open>2^64\<close>.
\<close>

definition int_of_usize :: "nat \<Rightarrow> int" where
  "int_of_usize n =
     (let m = int n mod 4294967296 in if m < 2147483648 then m else m - 4294967296)"

definition usize_of_int :: "int \<Rightarrow> nat" where
  "usize_of_int x = nat (x mod 18446744073709551616)"

section \<open>The collection\<close>

text \<open>
  \<^verbatim>\<open>struct sc_collection\<close>: the bucket and its end, the stride, the logical length and
  the ownership flag. A \<^verbatim>\<open>collection\<close> is a pointer to the struct, \<open>None\<close> for
  \<^verbatim>\<open>NULL\<close>; the structs are held by value and the operations return them updated.
\<close>

record sc_collection =
  bucket :: ptr
  end_ptr :: ptr
  stride :: nat
  coll_length :: nat
  owns_buffer :: bool

type_synonym collection = "sc_collection option"

definition collection_get_buffer :: "collection \<Rightarrow> ptr" where
  "collection_get_buffer c = (case c of None \<Rightarrow> Null | Some x \<Rightarrow> bucket x)"

definition collection_get_end :: "collection \<Rightarrow> ptr" where
  "collection_get_end c = (case c of None \<Rightarrow> Null | Some x \<Rightarrow> end_ptr x)"

definition collection_get_stride :: "collection \<Rightarrow> nat" where
  "collection_get_stride c = (case c of None \<Rightarrow> 0 | Some x \<Rightarrow> stride x)"

text \<open>
  Modelled from the spec: \<^verbatim>\<open>array_alloc_struct_with_bucket\<close>, which \<^verbatim>\<open>collection_new\<close>
  calls and the sources do not hold: "allocate(capacity, stride) -> Buffer or fails with
  AllocationFailure when stride is 0 or the underlying allocator fails; the allocated
  region is zero-initialized". It returns the bucket and its end.
\<close>

definition array_alloc_struct_with_bucket ::
  "byte list option \<Rightarrow> nat \<Rightarrow> nat \<Rightarrow> heap \<Rightarrow> (ptr \<times> ptr) option \<times> heap" where
  "array_alloc_struct_with_bucket reply strd cap h =
     (if strd = 0 then (None, h)
      else
        (case Allocator_alloc reply (cap * strd) h of
           (p, h1) \<Rightarrow>
             (if p = Null then (None, h1)
              else (Some (p, ptr_add p (cap * strd)), memset0 h1 p (cap * strd)))))"

definition collection_new :: "byte list option \<Rightarrow> nat \<Rightarrow> nat \<Rightarrow> heap \<Rightarrow> collection \<times> heap" where
  "collection_new reply cap strd h =
     (case array_alloc_struct_with_bucket reply strd cap h of
        (None, h1) \<Rightarrow> (None, h1)
      | (Some (b, e), h1) \<Rightarrow>
          (Some \<lparr>bucket = b, end_ptr = e, stride = strd, coll_length = 0, owns_buffer = True\<rparr>,
           h1))"

definition collection_dispose :: "collection \<Rightarrow> heap \<Rightarrow> heap" where
  "collection_dispose c h =
     (case c of
        None \<Rightarrow> h
      | Some x \<Rightarrow>
          (if owns_buffer x \<and> bucket x \<noteq> Null then Allocator_dispose (bucket x) h else h))"

text \<open>
  \<^verbatim>\<open>collection_grow\<close>: the new capacity is 8 from 0 and twice the capacity otherwise;
  the old bytes are copied to the new bucket and the old bucket is handed to
  \<^verbatim>\<open>Allocator.dispose\<close>, whoever owns it. (The division by the stride is a division
  by zero in C when the stride is 0; no constructor makes such a collection, and
  well-formed containers exclude it.)
\<close>

definition collection_grow :: "byte list option \<Rightarrow> collection \<Rightarrow> heap \<Rightarrow> int \<times> collection \<times> heap" where
  "collection_grow reply c h =
     (case c of
        None \<Rightarrow> (ERR, c, h)
      | Some x \<Rightarrow>
          (let current_capacity = ptr_diff (end_ptr x) (bucket x) div stride x;
               new_capacity = (if current_capacity = 0 then 8 else current_capacity * 2)
           in (case Allocator_alloc reply (stride x * new_capacity) h of
                 (new_buffer, h1) \<Rightarrow>
                   (if new_buffer = Null then (ERR, c, h1)
                    else
                      (let h2 = memcpy h1 new_buffer (bucket x) (stride x * current_capacity);
                           h3 = Allocator_dispose (bucket x) h2
                       in (OK,
                           Some (x\<lparr>bucket := new_buffer,
                                   end_ptr := ptr_add new_buffer (stride x * new_capacity)\<rparr>),
                           h3))))))"

section \<open>The index array\<close>

text \<open>
  \<^verbatim>\<open>struct sc_indexarray\<close>: the collection and the slot where the next search for an
  empty slot starts. An \<^verbatim>\<open>indexarray\<close> is a pointer to it, \<open>None\<close> for \<^verbatim>\<open>NULL\<close>.
\<close>

record sc_indexarray =
  coll :: collection
  next_slot :: nat

type_synonym indexarray = "sc_indexarray option"

text \<open>The loop of \<^verbatim>\<open>is_slot_empty\<close> over the bytes of a slot.\<close>

fun bytes_all_zero :: "byte list \<Rightarrow> bool" where
  "bytes_all_zero [] = True"
| "bytes_all_zero (b # bs) = (if b \<noteq> 0 then False else bytes_all_zero bs)"

definition is_slot_empty :: "heap \<Rightarrow> ptr \<Rightarrow> nat \<Rightarrow> bool" where
  "is_slot_empty h slot_ptr strd = bytes_all_zero (load h slot_ptr strd)"

definition zero_slot :: "heap \<Rightarrow> ptr \<Rightarrow> nat \<Rightarrow> heap" where
  "zero_slot h slot_ptr strd = memset0 h slot_ptr strd"

definition indexarray_capacity :: "indexarray \<Rightarrow> nat" where
  "indexarray_capacity ia =
     (case ia of
        None \<Rightarrow> 0
      | Some a \<Rightarrow>
          (let buffer = collection_get_buffer (coll a);
               e = collection_get_end (coll a);
               strd = collection_get_stride (coll a)
           in if buffer = Null \<or> e = Null \<or> strd = 0 then 0 else ptr_diff e buffer div strd))"

definition indexarray_stride :: "indexarray \<Rightarrow> nat" where
  "indexarray_stride ia = (case ia of None \<Rightarrow> 0 | Some a \<Rightarrow> collection_get_stride (coll a))"

text \<open>
  \<^verbatim>\<open>indexarray_new\<close>. The struct of the index array is allocated first: \<open>struct_ok\<close>
  says whether that allocation succeeds, \<open>reply\<close> is the allocator's answer for the
  bucket.
\<close>

definition indexarray_new :: "bool \<Rightarrow> byte list option \<Rightarrow> nat \<Rightarrow> nat \<Rightarrow> heap \<Rightarrow> indexarray \<times> heap" where
  "indexarray_new struct_ok reply cap strd h =
     (if strd = 0 then (None, h)
      else if \<not> struct_ok then (None, h)
      else
        (case collection_new reply cap strd h of
           (None, h1) \<Rightarrow> (None, h1)
         | (Some c, h1) \<Rightarrow>
             (let buffer = collection_get_buffer (Some c);
                  h2 = (if buffer \<noteq> Null then memset0 h1 buffer (cap * strd) else h1)
              in (Some \<lparr>coll = Some c, next_slot = 0\<rparr>, h2))))"

definition indexarray_dispose :: "indexarray \<Rightarrow> heap \<Rightarrow> heap" where
  "indexarray_dispose ia h = (case ia of None \<Rightarrow> h | Some a \<Rightarrow> collection_dispose (coll a) h)"

text \<open>
  The search loop of \<^verbatim>\<open>indexarray_add\<close>: \<open>i\<close> runs from 0 to the capacity, the slot
  examined is \<open>(next_slot + i) % capacity\<close>, and the first empty one is the result.
\<close>

function add_scan :: "heap \<Rightarrow> ptr \<Rightarrow> nat \<Rightarrow> nat \<Rightarrow> nat \<Rightarrow> nat \<Rightarrow> nat option" where
  "add_scan h buffer strd cap nxt i =
     (if i < cap then
        (if is_slot_empty h (ptr_add buffer (((nxt + i) mod cap) * strd)) strd
         then Some ((nxt + i) mod cap)
         else add_scan h buffer strd cap nxt (i + 1))
      else None)"
  by pat_completeness auto
termination
  by (relation "measure (\<lambda>(h, buffer, strd, cap, nxt, i). cap - i)") auto

declare add_scan.simps [simp del]

text \<open>
  \<^verbatim>\<open>indexarray_add\<close>: the handle or \<open>ERR\<close>, the index array and the heap afterwards.
  The value is the caller's pointer, and its stride bytes are read where the code reads
  them: at the \<^verbatim>\<open>memcpy\<close> into the slot found, or, when the bucket had to grow, at the
  \<^verbatim>\<open>memcpy\<close> that follows \<^verbatim>\<open>collection_grow\<close> and the \<^verbatim>\<open>memset\<close> of the new
  half, when the old bucket is released already. The search comes first and, when it
  finds a slot, the copy and the return; the growth follows when the search ends without
  a slot. The handle returned is the slot index cast to \<^verbatim>\<open>int\<close>.
\<close>

definition indexarray_add ::
  "byte list option \<Rightarrow> indexarray \<Rightarrow> ptr \<Rightarrow> heap \<Rightarrow> int \<times> indexarray \<times> heap" where
  "indexarray_add reply ia val h =
     (case ia of
        None \<Rightarrow> (ERR, ia, h)
      | Some a \<Rightarrow>
          (if val = Null then (ERR, ia, h)
           else
             (let strd = collection_get_stride (coll a);
                  cap = indexarray_capacity ia;
                  buffer = collection_get_buffer (coll a)
              in (case add_scan h buffer strd cap (next_slot a) 0 of
                    Some slot_index \<Rightarrow>
                      (int_of_usize slot_index,
                       Some (a\<lparr>next_slot := (slot_index + 1) mod cap\<rparr>),
                       memcpy h (ptr_add buffer (slot_index * strd)) val strd)
                  | None \<Rightarrow>
                      (case collection_grow reply (coll a) h of
                         (rc, c1, h1) \<Rightarrow>
                           (if rc \<noteq> OK then (ERR, Some (a\<lparr>coll := c1\<rparr>), h1)
                            else
                              (let buffer1 = collection_get_buffer c1;
                                   cap1 = indexarray_capacity (Some (a\<lparr>coll := c1\<rparr>));
                                   new_space = ptr_add buffer1 ((cap1 div 2) * strd);
                                   h2 = memset0 h1 new_space ((cap1 div 2) * strd);
                                   slot = ptr_add buffer1 ((cap1 div 2) * strd);
                                   h3 = memcpy h2 slot val strd
                               in (int_of_usize (cap1 div 2),
                                   Some (a\<lparr>coll := c1, next_slot := (cap1 div 2) + 1\<rparr>),
                                   h3))))))))"

text \<open>
  \<^verbatim>\<open>indexarray_get_at\<close>: the status and the bytes of the out buffer afterwards
  (\<open>None\<close> for a \<^verbatim>\<open>NULL\<close> out pointer). On success the first stride bytes of the
  out buffer are those of the slot.
\<close>

definition indexarray_get_at ::
  "indexarray \<Rightarrow> nat \<Rightarrow> byte list option \<Rightarrow> heap \<Rightarrow> int \<times> byte list option" where
  "indexarray_get_at ia index out_value h =
     (case ia of
        None \<Rightarrow> (ERR, out_value)
      | Some a \<Rightarrow>
          (case out_value of
             None \<Rightarrow> (ERR, out_value)
           | Some out \<Rightarrow>
               (let cap = indexarray_capacity ia
                in if index \<ge> cap then (ERR, out_value)
                   else
                     (let strd = collection_get_stride (coll a);
                          buffer = collection_get_buffer (coll a);
                          slot = ptr_add buffer (index * strd)
                      in if is_slot_empty h slot strd then (ERR, out_value)
                         else (OK, Some (load h slot strd @ drop strd out))))))"

definition indexarray_remove_at :: "indexarray \<Rightarrow> nat \<Rightarrow> heap \<Rightarrow> int \<times> indexarray \<times> heap" where
  "indexarray_remove_at ia index h =
     (case ia of
        None \<Rightarrow> (ERR, ia, h)
      | Some a \<Rightarrow>
          (let cap = indexarray_capacity ia
           in if index \<ge> cap then (ERR, ia, h)
              else
                (let strd = collection_get_stride (coll a);
                     buffer = collection_get_buffer (coll a);
                     slot = ptr_add buffer (index * strd)
                 in (OK, ia, zero_slot h slot strd))))"

text \<open>
  \<^verbatim>\<open>indexarray_from_buffer\<close>: a view of the caller's range. \<open>struct_ok\<close> and
  \<open>coll_ok\<close> say whether the two struct allocations succeed.
\<close>

definition indexarray_from_buffer :: "bool \<Rightarrow> bool \<Rightarrow> ptr \<Rightarrow> ptr \<Rightarrow> nat \<Rightarrow> indexarray" where
  "indexarray_from_buffer struct_ok coll_ok buffer e strd =
     (if buffer = Null \<or> e = Null \<or> strd = 0 \<or> ptr_ge buffer e then None
      else if \<not> struct_ok then None
      else if \<not> coll_ok then None
      else
        Some \<lparr>coll = Some \<lparr>bucket = buffer, end_ptr = e, stride = strd, coll_length = 0,
                            owns_buffer = False\<rparr>,
              next_slot = 0\<rparr>)"

definition indexarray_is_empty_slot :: "indexarray \<Rightarrow> nat \<Rightarrow> heap \<Rightarrow> bool" where
  "indexarray_is_empty_slot ia index h =
     (case ia of
        None \<Rightarrow> True
      | Some a \<Rightarrow>
          (let cap = indexarray_capacity ia
           in if index \<ge> cap then True
              else
                (let strd = collection_get_stride (coll a);
                     buffer = collection_get_buffer (coll a);
                     slot = ptr_add buffer (index * strd)
                 in is_slot_empty h slot strd)))"

definition indexarray_clear :: "indexarray \<Rightarrow> heap \<Rightarrow> indexarray \<times> heap" where
  "indexarray_clear ia h =
     (case ia of
        None \<Rightarrow> (ia, h)
      | Some a \<Rightarrow>
          (let cap = indexarray_capacity ia;
               strd = collection_get_stride (coll a);
               buffer = collection_get_buffer (coll a);
               h1 = (if buffer \<noteq> Null then memset0 h buffer (cap * strd) else h)
           in (Some (a\<lparr>next_slot := 0\<rparr>), h1)))"

section \<open>The sparse iterator\<close>

text \<open>
  \<^verbatim>\<open>sc_sparse_i\<close>, the table of the three operations a sparse container gives its
  iterator, and \<^verbatim>\<open>struct sparse_iterator_s\<close>. The field \<^verbatim>\<open>sparse_coll\<close> is a
  reference to the container: it is the argument \<open>obj\<close> of every operation below, which
  reads the container as it is at the call, with the heap.
\<close>

record 'c sc_sparse_i =
  is_empty_slot :: "'c option \<Rightarrow> nat \<Rightarrow> heap \<Rightarrow> bool"
  capacity :: "'c option \<Rightarrow> heap \<Rightarrow> nat"
  get_at :: "'c option \<Rightarrow> nat \<Rightarrow> byte list option \<Rightarrow> heap \<Rightarrow> int \<times> byte list option"

record 'c sparse_iterator_s =
  ops :: "'c sc_sparse_i option"
  current :: nat
  it_capacity :: nat
  positioned :: bool

type_synonym 'c sparse_iterator = "'c sparse_iterator_s option"

definition sparse_iterator_new ::
  "bool \<Rightarrow> 'c option \<Rightarrow> 'c sc_sparse_i option \<Rightarrow> heap \<Rightarrow> 'c sparse_iterator" where
  "sparse_iterator_new it_ok obj tbl h =
     (case obj of
        None \<Rightarrow> None
      | Some x \<Rightarrow>
          (case tbl of
             None \<Rightarrow> None
           | Some t \<Rightarrow>
               (if \<not> it_ok then None
                else Some \<lparr>ops = tbl, current = 0, it_capacity = capacity t obj h,
                           positioned = False\<rparr>)))"

text \<open>The search loop of \<^verbatim>\<open>sparse_iter_next\<close>.\<close>

function sparse_iter_search ::
  "'c sc_sparse_i \<Rightarrow> 'c option \<Rightarrow> heap \<Rightarrow> 'c sparse_iterator_s \<Rightarrow> bool \<times> 'c sparse_iterator_s" where
  "sparse_iter_search t obj h it =
     (if current it < it_capacity it then
        (if \<not> is_empty_slot t obj (current it) h then (True, it\<lparr>positioned := True\<rparr>)
         else sparse_iter_search t obj h (it\<lparr>current := current it + 1\<rparr>))
      else (False, it))"
  by pat_completeness auto
termination
  by (relation "measure (\<lambda>(t, obj, h, it). it_capacity it - current it)") auto

declare sparse_iter_search.simps [simp del]

definition sparse_iter_next ::
  "'c option \<Rightarrow> heap \<Rightarrow> 'c sparse_iterator \<Rightarrow> bool \<times> 'c sparse_iterator" where
  "sparse_iter_next obj h it =
     (case it of
        None \<Rightarrow> (False, it)
      | Some i \<Rightarrow>
          (case ops i of
             None \<Rightarrow> (False, it)
           | Some t \<Rightarrow>
               (let i1 = (if positioned i
                          then i\<lparr>current := current i + 1, positioned := False\<rparr> else i)
                in (case sparse_iter_search t obj h i1 of (found, i2) \<Rightarrow> (found, Some i2)))))"

definition sparse_iter_current_index :: "'c sparse_iterator \<Rightarrow> nat" where
  "sparse_iter_current_index it = (case it of None \<Rightarrow> 0 | Some i \<Rightarrow> current i)"

definition sparse_iter_current_value ::
  "'c option \<Rightarrow> heap \<Rightarrow> 'c sparse_iterator \<Rightarrow> byte list option \<Rightarrow> int \<times> byte list option" where
  "sparse_iter_current_value obj h it out_value =
     (case it of
        None \<Rightarrow> (ERR, out_value)
      | Some i \<Rightarrow>
          (if out_value = None then (ERR, out_value)
           else
             (case ops i of
                None \<Rightarrow> (ERR, out_value)
              | Some t \<Rightarrow>
                  (if \<not> positioned i then (ERR, out_value)
                   else get_at t obj (current i) out_value h))))"

definition sparse_iter_reset :: "'c sparse_iterator \<Rightarrow> 'c sparse_iterator" where
  "sparse_iter_reset it =
     (case it of None \<Rightarrow> None | Some i \<Rightarrow> Some (i\<lparr>current := 0, positioned := False\<rparr>))"

definition indexarray_sparse_ops :: "sc_indexarray sc_sparse_i" where
  "indexarray_sparse_ops =
     \<lparr>is_empty_slot = indexarray_is_empty_slot,
      capacity = (\<lambda>ia h. indexarray_capacity ia),
      get_at = indexarray_get_at\<rparr>"

definition indexarray_create_iterator :: "bool \<Rightarrow> indexarray \<Rightarrow> heap \<Rightarrow> sc_indexarray sparse_iterator" where
  "indexarray_create_iterator it_ok ia h =
     (case ia of
        None \<Rightarrow> None
      | Some a \<Rightarrow> sparse_iterator_new it_ok ia (Some indexarray_sparse_ops) h)"

text \<open>
  The loop a client writes around the iterator, as the tests and the README do:
  \<^verbatim>\<open>while (SparseIterator.next(it)) { ... SparseIterator.current_index(it) ... }\<close>.
  It returns the indices seen, in the order seen, and the iterator when \<^verbatim>\<open>next\<close> has
  returned false. The loop ends: every successful \<^verbatim>\<open>next\<close> moves the cursor forward,
  below the cached capacity.
\<close>

function sparse_iter_indices ::
  "'c option \<Rightarrow> heap \<Rightarrow> 'c sparse_iterator \<Rightarrow> nat list \<times> 'c sparse_iterator" where
  "sparse_iter_indices obj h it =
     (case sparse_iter_next obj h it of
        (found, it1) \<Rightarrow>
          (if found then
             (case sparse_iter_indices obj h it1 of
                (ks, it2) \<Rightarrow> (sparse_iter_current_index it1 # ks, it2))
           else ([], it1)))"
  by pat_completeness auto
termination
proof (relation "measure (\<lambda>(obj, h, it).
         case it of None \<Rightarrow> 0
         | Some i \<Rightarrow> 2 * (it_capacity i - current i) + (if positioned i then 0 else 1))")
  show "wf (measure (\<lambda>(obj, h, it).
         case it of None \<Rightarrow> 0
         | Some i \<Rightarrow> 2 * (it_capacity i - current i) + (if positioned i then 0 else 1)))"
    by simp
next
  fix obj :: "'c option" and h :: heap and it :: "'c sparse_iterator" and found it1
  assume nx: "(found, it1) = sparse_iter_next obj h it" and found: found
  have search: "sparse_iter_search t obj h i = (True, i') \<Longrightarrow>
                it_capacity i' = it_capacity i \<and> current i \<le> current i' \<and>
                current i' < it_capacity i \<and> positioned i'" for t i i'
  proof (induction t obj h i rule: sparse_iter_search.induct)
    case (1 t obj h i)
    then show ?case
      by (simp add: sparse_iter_search.simps [of t obj h i] split: if_splits) auto
  qed
  from nx found obtain i t where i: "it = Some i" "ops i = Some t"
    by (cases it; cases "ops (the it)") (auto simp: sparse_iter_next_def)
  define i1 where "i1 = (if positioned i then i\<lparr>current := current i + 1, positioned := False\<rparr> else i)"
  from nx found i obtain i2 where i2: "it1 = Some i2" "sparse_iter_search t obj h i1 = (True, i2)"
    by (auto simp: sparse_iter_next_def i1_def Let_def split: prod.splits)
  from search [OF i2(2)] have
    "2 * (it_capacity i2 - current i2) + (if positioned i2 then 0 else 1)
     < 2 * (it_capacity i - current i) + (if positioned i then 0 else 1)"
    by (auto simp: i1_def split: if_splits)
  then show "((obj, h, it1), (obj, h, it)) \<in> measure (\<lambda>(obj, h, it).
         case it of None \<Rightarrow> 0
         | Some i \<Rightarrow> 2 * (it_capacity i - current i) + (if positioned i then 0 else 1))"
    using i i2 by simp
qed

declare sparse_iter_indices.simps [simp del]

text \<open>A client that calls \<^verbatim>\<open>next\<close> \<open>n\<close> times, whatever it returns.\<close>

fun sparse_iter_advance ::
  "nat \<Rightarrow> 'c option \<Rightarrow> heap \<Rightarrow> 'c sparse_iterator \<Rightarrow> 'c sparse_iterator" where
  "sparse_iter_advance 0 obj h it = it"
| "sparse_iter_advance (Suc n) obj h it =
     sparse_iter_advance n obj h (snd (sparse_iter_next obj h it))"

section \<open>Sequences of operations\<close>

text \<open>
  The operations that change an index array, with their arguments: an add carries the
  value pointer and the allocator's answer should the add have to grow the bucket.
  \<open>run\<close> applies a sequence of them from left to right.
\<close>

datatype op = Add ptr "byte list option" | Remove_at nat | Clear

fun apply_op :: "op \<Rightarrow> indexarray \<times> heap \<Rightarrow> indexarray \<times> heap" where
  "apply_op (Add val reply) (ia, h) =
     (case indexarray_add reply ia val h of (rc, ia', h') \<Rightarrow> (ia', h'))"
| "apply_op (Remove_at k) (ia, h) =
     (case indexarray_remove_at ia k h of (rc, ia', h') \<Rightarrow> (ia', h'))"
| "apply_op Clear (ia, h) = indexarray_clear ia h"

definition run :: "op list \<Rightarrow> indexarray \<times> heap \<Rightarrow> indexarray \<times> heap" where
  "run prog s = fold apply_op prog s"

text \<open>
  A client that inserts a list of values one after the other and keeps the handles:
  each value pointer comes with the allocator's answer for its add.
\<close>

fun add_all ::
  "(ptr \<times> byte list option) list \<Rightarrow> indexarray \<times> heap \<Rightarrow> int list \<times> indexarray \<times> heap" where
  "add_all [] (ia, h) = ([], ia, h)"
| "add_all ((val, reply) # rest) (ia, h) =
     (case indexarray_add reply ia val h of
        (hnd, ia1, h1) \<Rightarrow>
          (case add_all rest (ia1, h1) of (hs, ia2, h2) \<Rightarrow> (hnd # hs, ia2, h2)))"

text \<open>
  A container is fully occupied when none of its slots is empty; \<open>grows\<close> says of an
  operation and the state it starts from that it is an add with a value, on a fully
  occupied container, for which the allocator has memory.
\<close>

definition no_empty_slot :: "indexarray \<Rightarrow> heap \<Rightarrow> bool" where
  "no_empty_slot ia h =
     list_all (\<lambda>k. \<not> indexarray_is_empty_slot ia k h) [0..<indexarray_capacity ia]"

fun grows :: "op \<Rightarrow> indexarray \<times> heap \<Rightarrow> bool" where
  "grows (Add val reply) (ia, h) = (val \<noteq> Null \<and> reply \<noteq> None \<and> no_empty_slot ia h)"
| "grows (Remove_at k) (ia, h) = False"
| "grows Clear (ia, h) = False"

section \<open>Well-formed containers\<close>

text \<open>
  What the constructors establish and the operations keep: the collection is there, the
  bucket and its end point into one live block of the heap, the range between them lies
  inside the block, and the stride is not 0. The range need not be a multiple of the
  stride, and the capacity may be 0: \<^verbatim>\<open>indexarray_from_buffer\<close> makes such views.
\<close>

definition well_formed :: "sc_indexarray \<Rightarrow> heap \<Rightarrow> bool" where
  "well_formed a h =
     (case coll a of
        None \<Rightarrow> False
      | Some c \<Rightarrow>
          (case bucket c of
             Null \<Rightarrow> False
           | Ptr b i \<Rightarrow>
               (case end_ptr c of
                  Null \<Rightarrow> False
                | Ptr b' j \<Rightarrow>
                    b' = b \<and> i \<le> j \<and> 0 < stride c \<and> b < length h \<and>
                    (case h ! b of None \<Rightarrow> False | Some bs \<Rightarrow> j \<le> length bs))))"

text \<open>
  The address of slot \<open>k\<close> and the bytes it holds, as every operation computes them;
  the result of the search loop of \<^verbatim>\<open>indexarray_add\<close> on a container; and an index
  array of \<open>n\<close> one-byte slots over block \<open>blk\<close>, for the examples.
\<close>

definition slot_ptr :: "sc_indexarray \<Rightarrow> nat \<Rightarrow> ptr" where
  "slot_ptr a k = ptr_add (collection_get_buffer (coll a)) (k * collection_get_stride (coll a))"

definition slot_bytes :: "sc_indexarray \<Rightarrow> heap \<Rightarrow> nat \<Rightarrow> byte list" where
  "slot_bytes a h k = load h (slot_ptr a k) (collection_get_stride (coll a))"

definition scan_of :: "sc_indexarray \<Rightarrow> heap \<Rightarrow> nat option" where
  "scan_of a h = add_scan h (collection_get_buffer (coll a)) (collection_get_stride (coll a))
                   (indexarray_capacity (Some a)) (next_slot a) 0"

text \<open>
  A value handed to \<^verbatim>\<open>indexarray_add\<close> in the way the interface means it: the pointer
  \<open>val\<close> points to the bytes \<open>v\<close>, as many as the stride, and they lie in a block of
  the caller's, not in the block of the container's bucket.
\<close>

definition value_at :: "heap \<Rightarrow> ptr \<Rightarrow> sc_indexarray \<Rightarrow> byte list \<Rightarrow> bool" where
  "value_at h val a v =
     (case val of
        Null \<Rightarrow> False
      | Ptr vb voff \<Rightarrow>
          (case collection_get_buffer (coll a) of Null \<Rightarrow> False | Ptr b i \<Rightarrow> vb \<noteq> b) \<and>
          length v = collection_get_stride (coll a) \<and>
          load h val (collection_get_stride (coll a)) = v)"

definition bytes_array :: "nat \<Rightarrow> nat \<Rightarrow> bool \<Rightarrow> nat \<Rightarrow> sc_indexarray" where
  "bytes_array blk n own nxt =
     \<lparr>coll = Some \<lparr>bucket = Ptr blk 0, end_ptr = Ptr blk n, stride = 1, coll_length = 0,
                   owns_buffer = own\<rparr>,
      next_slot = nxt\<rparr>"

text \<open>
  The record of the repository's tests, \<^verbatim>\<open>struct { int id; int value; }\<close>, as its
  eight bytes (for numbers below 256).
\<close>

definition test_data :: "nat \<Rightarrow> nat \<Rightarrow> byte list" where
  "test_data ident val = [of_nat ident, 0, 0, 0, of_nat val, 0, 0, 0]"

section \<open>Bytes, blocks and slots\<close>

lemma well_formedE:
  assumes "well_formed a h"
  obtains c b i j bs where "coll a = Some c" "bucket c = Ptr b i" "end_ptr c = Ptr b j"
    "i \<le> j" "0 < stride c" "b < length h" "h ! b = Some bs" "j \<le> length bs"
  using assms unfolding well_formed_def
  by (auto split: option.splits ptr.splits)

lemma bytes_all_zero_iff: "bytes_all_zero xs = (xs = replicate (length xs) 0)"
  by (induction xs) auto

lemma bytes_all_zero_replicate [simp]: "bytes_all_zero (replicate n 0)"
  by (simp add: bytes_all_zero_iff)

lemma store_length [simp]: "length (store h p xs) = length h"
  by (simp add: store_def split: ptr.splits option.splits)

lemma load_length_le: "length (load h p n) \<le> n"
  by (simp add: load_def split: ptr.splits option.splits)

lemma load_block_cong:
  assumes "b < length h" "b < length h'" "h' ! b = h ! b"
  shows "load h' (Ptr b off) n = load h (Ptr b off) n"
  using assms by (simp add: load_def)

lemma int_of_usize_small: "n < 2147483648 \<Longrightarrow> int_of_usize n = int n"
  by (simp add: int_of_usize_def Let_def)

lemma usize_of_int_small: "usize_of_int (int k) = k mod 18446744073709551616"
  by (simp add: usize_of_int_def nat_mod_distrib)

lemma store_nth_other: "b' \<noteq> b \<Longrightarrow> store h (Ptr b off) xs ! b' = h ! b'"
  by (simp add: store_def split: option.splits)

lemma store_nth_same:
  "b < length h \<Longrightarrow> h ! b = Some bs \<Longrightarrow> off + length xs \<le> length bs \<Longrightarrow>
   store h (Ptr b off) xs ! b = Some (take off bs @ xs @ drop (off + length xs) bs)"
  by (simp add: store_def)

lemma patch_before:
  assumes "off + length xs \<le> length (bs::'a list)" "q + n \<le> off"
  shows "take n (drop q (take off bs @ xs @ drop (off + length xs) bs)) = take n (drop q bs)"
proof -
  have "take n (drop q (take off bs @ xs @ drop (off + length xs) bs))
        = take n (drop q (take off bs))"
    using assms by simp
  also have "\<dots> = take n (drop q bs)"
    using assms by (simp add: drop_take min_def)
  finally show ?thesis .
qed

lemma patch_after:
  assumes "off + length xs \<le> length (bs::'a list)" "off + length xs \<le> q"
  shows "take n (drop q (take off bs @ xs @ drop (off + length xs) bs)) = take n (drop q bs)"
proof -
  have "drop q (take off bs @ xs @ drop (off + length xs) bs)
        = drop (q - off - length xs) (drop (off + length xs) bs)"
    using assms by simp
  also have "\<dots> = drop q bs"
    using assms by simp
  finally show ?thesis by simp
qed

lemma load_store_same:
  "b < length h \<Longrightarrow> h ! b = Some bs \<Longrightarrow> off + length xs \<le> length bs \<Longrightarrow>
   load (store h (Ptr b off) xs) (Ptr b off) (length xs) = xs"
  by (simp add: load_def store_nth_same)

lemma load_store_disj:
  assumes "q + n \<le> off \<or> off + length xs \<le> q"
  shows "load (store h (Ptr b off) xs) (Ptr b q) n = load h (Ptr b q) n"
proof (cases "b < length h")
  case False
  then show ?thesis by (simp add: load_def)
next
  case True
  show ?thesis
  proof (cases "h ! b")
    case None
    then show ?thesis using True by (simp add: load_def store_def)
  next
    case (Some bs)
    show ?thesis
    proof (cases "off + length xs \<le> length bs")
      case False
      then show ?thesis using True Some by (simp add: store_def)
    next
      case inb: True
      have "take n (drop q (take off bs @ xs @ drop (off + length xs) bs)) = take n (drop q bs)"
        using assms patch_before [OF inb] patch_after [OF inb] by blast
      then show ?thesis
        using True Some inb by (simp add: load_def store_nth_same)
    qed
  qed
qed

lemma capacity_wf:
  assumes "coll a = Some c" "bucket c = Ptr b i" "end_ptr c = Ptr b j" "0 < stride c"
  shows "indexarray_capacity (Some a) = (j - i) div stride c"
  using assms
  by (simp add: indexarray_capacity_def collection_get_buffer_def collection_get_end_def
      collection_get_stride_def)

lemma slot_in_range:
  assumes "k < (j - i) div s" "i \<le> (j::nat)"
  shows "i + k * s + s \<le> j"
proof -
  have "Suc k \<le> (j - i) div s" using assms by simp
  then have "Suc k * s \<le> ((j - i) div s) * s" by (rule mult_le_mono1)
  also have "\<dots> \<le> j - i" by simp
  finally show ?thesis using assms by simp
qed

lemma slots_disjoint:
  assumes "k \<noteq> (k'::nat)"
  shows "i + k' * s + s \<le> i + k * s \<or> i + k * s + s \<le> i + k' * s"
proof (cases "k < k'")
  case True
  then have "Suc k * s \<le> k' * s" by (intro mult_le_mono1) simp
  then show ?thesis by simp
next
  case False
  with assms have "Suc k' * s \<le> k * s" by (intro mult_le_mono1) simp
  then show ?thesis by simp
qed

lemma well_formed_store: "well_formed a h \<Longrightarrow> well_formed a (store h p xs)"
proof -
  assume wf: "well_formed a h"
  then obtain c b i j bs where f: "coll a = Some c" "bucket c = Ptr b i" "end_ptr c = Ptr b j"
    "i \<le> j" "0 < stride c" "b < length h" "h ! b = Some bs" "j \<le> length bs"
    by (rule well_formedE)
  have "\<exists>bs'. store h p xs ! b = Some bs' \<and> length bs' = length bs"
    using f by (auto simp: store_def split: ptr.splits option.splits simp: nth_list_update)
  then show ?thesis
    using f by (auto simp: well_formed_def)
qed

lemma slot_store_same:
  assumes "well_formed a h" "k < indexarray_capacity (Some a)"
    "length xs = indexarray_stride (Some a)"
  shows "slot_bytes a (store h (slot_ptr a k) xs) k = xs"
proof -
  from assms(1) obtain c b i j bs where f: "coll a = Some c" "bucket c = Ptr b i" "end_ptr c = Ptr b j"
    "i \<le> j" "0 < stride c" "b < length h" "h ! b = Some bs" "j \<le> length bs"
    by (rule well_formedE)
  have "k < (j - i) div stride c" using assms(2) f by (simp add: capacity_wf)
  then have "i + k * stride c + stride c \<le> j" using f by (intro slot_in_range)
  then have inb: "(i + k * stride c) + length xs \<le> length bs"
    using f assms(3) by (simp add: indexarray_stride_def collection_get_stride_def)
  have "load (store h (Ptr b (i + k * stride c)) xs) (Ptr b (i + k * stride c)) (length xs) = xs"
    using f(6,7) inb by (rule load_store_same)
  then show ?thesis
    using f assms(3) by (simp add: slot_bytes_def slot_ptr_def collection_get_buffer_def
        collection_get_stride_def indexarray_stride_def)
qed

section \<open>The operations on slots\<close>

lemma next_slot_update_simps [simp]:
  "slot_ptr (a\<lparr>next_slot := n\<rparr>) = slot_ptr a"
  "slot_bytes (a\<lparr>next_slot := n\<rparr>) = slot_bytes a"
  "well_formed (a\<lparr>next_slot := n\<rparr>) = well_formed a"
  "indexarray_capacity (Some (a\<lparr>next_slot := n\<rparr>)) = indexarray_capacity (Some a)"
  "indexarray_stride (Some (a\<lparr>next_slot := n\<rparr>)) = indexarray_stride (Some a)"
  by (simp_all add: slot_ptr_def slot_bytes_def well_formed_def indexarray_capacity_def
      indexarray_stride_def fun_eq_iff)

lemma is_empty_slot_eq:
  "indexarray_is_empty_slot (Some a) k h =
     (indexarray_capacity (Some a) \<le> k \<or> bytes_all_zero (slot_bytes a h k))"
  by (simp add: indexarray_is_empty_slot_def is_slot_empty_def slot_bytes_def slot_ptr_def Let_def)

lemma get_at_eq:
  "indexarray_get_at (Some a) k (Some out) h =
     (if indexarray_capacity (Some a) \<le> k \<or> bytes_all_zero (slot_bytes a h k)
      then (ERR, Some out)
      else (OK, Some (slot_bytes a h k @ drop (indexarray_stride (Some a)) out)))"
  by (simp add: indexarray_get_at_def is_slot_empty_def slot_bytes_def slot_ptr_def Let_def
      indexarray_stride_def)

lemma remove_at_eq:
  "indexarray_remove_at (Some a) k h =
     (if indexarray_capacity (Some a) \<le> k then (ERR, Some a, h)
      else (OK, Some a, store h (slot_ptr a k) (replicate (indexarray_stride (Some a)) 0)))"
  by (simp add: indexarray_remove_at_def zero_slot_def memset0_def slot_ptr_def Let_def
      indexarray_stride_def)

text \<open>The search loop.\<close>

lemma add_scan_None_iff:
  "(add_scan h buf s cap nxt i = None) =
   (\<forall>m. i \<le> m \<and> m < cap \<longrightarrow> \<not> is_slot_empty h (ptr_add buf (((nxt + m) mod cap) * s)) s)"
proof (induction h buf s cap nxt i rule: add_scan.induct)
  case (1 h buf s cap nxt i)
  show ?case
  proof (cases "i < cap")
    case False
    then have "add_scan h buf s cap nxt i = None"
      by (simp add: add_scan.simps [of h buf s cap nxt i])
    moreover have "\<forall>m. i \<le> m \<and> m < cap \<longrightarrow> \<not> is_slot_empty h (ptr_add buf (((nxt + m) mod cap) * s)) s"
      using False by auto
    ultimately show ?thesis by blast
  next
    case True
    show ?thesis
    proof (cases "is_slot_empty h (ptr_add buf (((nxt + i) mod cap) * s)) s")
      case e: True
      then show ?thesis
        using True by (auto simp: add_scan.simps [of h buf s cap nxt i])
    next
      case e: False
      have "(\<forall>m. i \<le> m \<and> m < cap \<longrightarrow> \<not> is_slot_empty h (ptr_add buf (((nxt + m) mod cap) * s)) s)
            = (\<forall>m. i + 1 \<le> m \<and> m < cap \<longrightarrow> \<not> is_slot_empty h (ptr_add buf (((nxt + m) mod cap) * s)) s)"
        using e by (metis Suc_eq_plus1 Suc_leI le_eq_less_or_eq Suc_leD)
      then show ?thesis
        using True e "1.IH" by (simp add: add_scan.simps [of h buf s cap nxt i])
    qed
  qed
qed

lemma add_scan_Some:
  "add_scan h buf s cap nxt i = Some k \<Longrightarrow>
   \<exists>m. i \<le> m \<and> m < cap \<and> k = (nxt + m) mod cap \<and>
       is_slot_empty h (ptr_add buf (k * s)) s \<and>
       (\<forall>m'. i \<le> m' \<and> m' < m \<longrightarrow> \<not> is_slot_empty h (ptr_add buf (((nxt + m') mod cap) * s)) s)"
proof (induction h buf s cap nxt i rule: add_scan.induct)
  case (1 h buf s cap nxt i)
  have lt: "i < cap"
    using "1.prems" by (simp add: add_scan.simps [of h buf s cap nxt i] split: if_splits)
  show ?case
  proof (cases "is_slot_empty h (ptr_add buf (((nxt + i) mod cap) * s)) s")
    case True
    then have "k = (nxt + i) mod cap"
      using "1.prems" lt by (simp add: add_scan.simps [of h buf s cap nxt i])
    then show ?thesis using True lt by (intro exI [of _ i]) auto
  next
    case False
    then have "add_scan h buf s cap nxt (i + 1) = Some k"
      using "1.prems" lt by (simp add: add_scan.simps [of h buf s cap nxt i])
    from "1.IH" [OF lt False this] obtain m where m: "i + 1 \<le> m" "m < cap" "k = (nxt + m) mod cap"
      "is_slot_empty h (ptr_add buf (k * s)) s"
      "\<forall>m'. i + 1 \<le> m' \<and> m' < m \<longrightarrow> \<not> is_slot_empty h (ptr_add buf (((nxt + m') mod cap) * s)) s"
      by blast
    have "\<forall>m'. i \<le> m' \<and> m' < m \<longrightarrow> \<not> is_slot_empty h (ptr_add buf (((nxt + m') mod cap) * s)) s"
      using m(5) False by (metis Suc_eq_plus1 Suc_leI le_eq_less_or_eq)
    then show ?thesis using m by (intro exI [of _ m]) auto
  qed
qed

lemma add_scan_first:
  assumes "i \<le> m" "m < cap" "is_slot_empty h (ptr_add buf (((nxt + m) mod cap) * s)) s"
    "\<forall>m'. i \<le> m' \<and> m' < m \<longrightarrow> \<not> is_slot_empty h (ptr_add buf (((nxt + m') mod cap) * s)) s"
  shows "add_scan h buf s cap nxt i = Some ((nxt + m) mod cap)"
proof -
  have "add_scan h buf s cap nxt i \<noteq> None"
    using assms(1-3) by (auto simp: add_scan_None_iff)
  then obtain k where k: "add_scan h buf s cap nxt i = Some k" by blast
  from add_scan_Some [OF k] obtain m0 where m0: "i \<le> m0" "m0 < cap" "k = (nxt + m0) mod cap"
    "is_slot_empty h (ptr_add buf (k * s)) s"
    "\<forall>m'. i \<le> m' \<and> m' < m0 \<longrightarrow> \<not> is_slot_empty h (ptr_add buf (((nxt + m') mod cap) * s)) s"
    by blast
  have "\<not> m0 < m" using assms(4) m0 by blast
  moreover have "\<not> m < m0" using m0(5) assms(1,3) by blast
  ultimately have "m0 = m" by simp
  then show ?thesis using k m0 by simp
qed

lemma rotation_onto:
  assumes "k < (cap::nat)"
  shows "\<exists>m<cap. (nxt + m) mod cap = k"
proof -
  let ?r = "nxt mod cap"
  let ?m = "(k + cap - ?r) mod cap"
  have r: "?r < cap" using assms by simp
  have "(nxt + ?m) mod cap = (?r + ?m) mod cap" by (simp add: mod_add_left_eq)
  also have "\<dots> = (?r + (k + cap - ?r)) mod cap" by (simp add: mod_add_right_eq)
  also have "\<dots> = (k + cap) mod cap" using r by simp
  also have "\<dots> = k" using assms by simp
  finally have "(nxt + ?m) mod cap = k" .
  moreover have "?m < cap" using assms by simp
  ultimately show ?thesis by blast
qed

lemma slot_empty_eq:
  "is_slot_empty h (ptr_add (collection_get_buffer (coll a)) (k * collection_get_stride (coll a)))
     (collection_get_stride (coll a)) = bytes_all_zero (slot_bytes a h k)"
  by (simp add: is_slot_empty_def slot_bytes_def slot_ptr_def)

lemma scan_of_None_iff:
  "(scan_of a h = None) = (\<forall>k < indexarray_capacity (Some a). \<not> bytes_all_zero (slot_bytes a h k))"
proof
  assume "scan_of a h = None"
  then have n: "\<forall>m. m < indexarray_capacity (Some a) \<longrightarrow>
     \<not> bytes_all_zero (slot_bytes a h ((next_slot a + m) mod indexarray_capacity (Some a)))"
    by (simp add: scan_of_def add_scan_None_iff slot_empty_eq)
  show "\<forall>k < indexarray_capacity (Some a). \<not> bytes_all_zero (slot_bytes a h k)"
  proof (intro allI impI)
    fix k assume "k < indexarray_capacity (Some a)"
    from rotation_onto [OF this, of "next_slot a"] n show "\<not> bytes_all_zero (slot_bytes a h k)"
      by blast
  qed
next
  assume "\<forall>k < indexarray_capacity (Some a). \<not> bytes_all_zero (slot_bytes a h k)"
  then show "scan_of a h = None"
    by (simp add: scan_of_def add_scan_None_iff slot_empty_eq)
qed

lemma scan_of_Some:
  assumes "scan_of a h = Some k"
  shows "k < indexarray_capacity (Some a) \<and> bytes_all_zero (slot_bytes a h k)"
proof -
  from add_scan_Some [OF assms [unfolded scan_of_def]]
  show ?thesis by (auto simp: slot_empty_eq)
qed

lemma scan_of_first:
  assumes "m < indexarray_capacity (Some a)"
    "bytes_all_zero (slot_bytes a h ((next_slot a + m) mod indexarray_capacity (Some a)))"
    "\<forall>m' < m. \<not> bytes_all_zero (slot_bytes a h ((next_slot a + m') mod indexarray_capacity (Some a)))"
  shows "scan_of a h = Some ((next_slot a + m) mod indexarray_capacity (Some a))"
  unfolding scan_of_def
  by (rule add_scan_first) (use assms in \<open>simp_all add: slot_empty_eq\<close>)

lemma add_found:
  assumes "scan_of a h = Some k" "val \<noteq> Null"
  shows "indexarray_add reply (Some a) val h =
     (int_of_usize k, Some (a\<lparr>next_slot := (k + 1) mod indexarray_capacity (Some a)\<rparr>),
      store h (slot_ptr a k) (load h val (indexarray_stride (Some a))))"
  using assms
  by (simp add: indexarray_add_def scan_of_def Let_def memcpy_def slot_ptr_def indexarray_stride_def)

lemma add_grow_fail:
  assumes "scan_of a h = None" "coll a \<noteq> None"
  shows "indexarray_add None (Some a) val h = (ERR, Some a, h)"
  using assms
  by (auto simp: indexarray_add_def scan_of_def Let_def collection_grow_def Allocator_alloc_def)

lemma value_atE:
  assumes "value_at h val a v" "well_formed a h"
  obtains vb voff where "val = Ptr vb voff" "vb < length h"
    "\<forall>off. collection_get_buffer (coll a) \<noteq> Ptr vb off"
    "length v = indexarray_stride (Some a)"
    "load h val (indexarray_stride (Some a)) = v"
proof -
  from assms(2) obtain c b i where f: "coll a = Some c" "bucket c = Ptr b i" "0 < stride c"
    by (elim well_formedE) blast
  from assms(1) obtain vb voff where v: "val = Ptr vb voff" "vb \<noteq> b" "length v = stride c"
    "load h (Ptr vb voff) (stride c) = v"
    using f by (auto simp: value_at_def collection_get_buffer_def collection_get_stride_def
        split: ptr.splits)
  have "v \<noteq> []" using v(3) f(3) by auto
  then have "vb < length h" using v(4) by (auto simp: load_def split: if_splits)
  then show ?thesis
    using v f by (intro that [of vb voff])
      (auto simp: collection_get_buffer_def indexarray_stride_def collection_get_stride_def)
qed

lemma well_formed_coll: "well_formed a h \<Longrightarrow> coll a \<noteq> None"
  by (auto simp: well_formed_def split: option.splits)

section \<open>Growth\<close>

lemma collection_grow_ok:
  assumes "bucket c = Ptr b i" "end_ptr c = Ptr b j" "i \<le> j" "0 < stride c"
    "b < length h" "h ! b = Some bs" "j \<le> length bs"
  defines "cap \<equiv> (j - i) div stride c"
  defines "M \<equiv> (if cap = 0 then 8 else cap * 2)"
  shows "\<exists>B0. collection_grow (Some junk) (Some c) h =
           (OK, Some (c\<lparr>bucket := Ptr (length h) 0, end_ptr := Ptr (length h) (stride c * M)\<rparr>),
            (h @ [Some B0])[b := None]) \<and>
         length B0 = stride c * M \<and>
         take (stride c * cap) B0 = take (stride c * cap) (drop i bs)"
proof -
  let ?s = "stride c"
  define J where "J = take (?s * M) (junk @ replicate (?s * M) 0)"
  define old where "old = take (?s * cap) (drop i bs)"
  define B0 where "B0 = old @ drop (?s * cap) J"
  have le: "?s * cap \<le> j - i" by (simp add: cap_def)
  have lenold: "length old = ?s * cap" using le assms(3,7) by (simp add: old_def)
  have capM: "?s * cap \<le> ?s * M" by (simp add: M_def)
  have lenJ: "length J = ?s * M" by (simp add: J_def)
  have lenB0: "length B0 = ?s * M" using capM lenold lenJ by (simp add: B0_def)
  have alloc: "Allocator_alloc (Some junk) (?s * M) h = (Ptr (length h) 0, h @ [Some J])"
    by (simp add: Allocator_alloc_def J_def)
  have ld: "load (h @ [Some J]) (Ptr b i) (?s * cap) = old"
    using assms(5,6) by (simp add: load_def nth_append old_def)
  have st: "store (h @ [Some J]) (Ptr (length h) 0) old = h @ [Some B0]"
    using lenold capM lenJ by (simp add: store_def B0_def)
  have "collection_grow (Some junk) (Some c) h =
           (OK, Some (c\<lparr>bucket := Ptr (length h) 0, end_ptr := Ptr (length h) (?s * M)\<rparr>),
            (h @ [Some B0])[b := None])"
    using assms(1,2,5) alloc ld st
    by (simp add: collection_grow_def Let_def cap_def [symmetric] M_def [symmetric] memcpy_def)
  moreover have "take (?s * cap) B0 = take (?s * cap) (drop i bs)"
    using lenold by (simp add: B0_def old_def)
  ultimately show ?thesis using lenB0 by blast
qed

lemma take_drop_take: "q + n \<le> m \<Longrightarrow> take n (drop q (take m xs)) = take n (drop q xs)"
  by (simp add: drop_take min_def)

lemma slot_store_other:
  assumes "well_formed a h" "k \<noteq> k'" "length xs \<le> indexarray_stride (Some a)"
  shows "slot_bytes a (store h (slot_ptr a k) xs) k' = slot_bytes a h k'"
proof -
  from assms(1) obtain c b i j bs where f: "coll a = Some c" "bucket c = Ptr b i" "end_ptr c = Ptr b j"
    "i \<le> j" "0 < stride c" "b < length h" "h ! b = Some bs" "j \<le> length bs"
    by (rule well_formedE)
  have "(i + k' * stride c) + stride c \<le> i + k * stride c \<or>
        (i + k * stride c) + length xs \<le> i + k' * stride c"
    using slots_disjoint [OF assms(2), of i "stride c"] f assms(3)
    by (auto simp: indexarray_stride_def collection_get_stride_def)
  then have "load (store h (Ptr b (i + k * stride c)) xs) (Ptr b (i + k' * stride c)) (stride c)
             = load h (Ptr b (i + k' * stride c)) (stride c)"
    by (rule load_store_disj)
  then show ?thesis
    using f by (simp add: slot_bytes_def slot_ptr_def collection_get_buffer_def
        collection_get_stride_def)
qed

lemma add_grow_ok:
  assumes wf: "well_formed a h" and full: "scan_of a h = None" and val: "val \<noteq> Null"
  defines "cap \<equiv> indexarray_capacity (Some a)"
  defines "mid \<equiv> (if cap = 0 then 4 else cap)"
  shows "\<exists>c' h'.
      indexarray_add (Some junk) (Some a) val h =
        (int_of_usize mid, Some (a\<lparr>coll := Some c', next_slot := mid + 1\<rparr>), h') \<and>
      well_formed (a\<lparr>coll := Some c'\<rparr>) h' \<and>
      indexarray_capacity (Some (a\<lparr>coll := Some c'\<rparr>)) = 2 * mid \<and>
      indexarray_stride (Some (a\<lparr>coll := Some c'\<rparr>)) = indexarray_stride (Some a) \<and>
      (\<forall>k < cap. slot_bytes (a\<lparr>coll := Some c'\<rparr>) h' k = slot_bytes a h k) \<and>
      (\<forall>v. value_at h val a v \<longrightarrow> slot_bytes (a\<lparr>coll := Some c'\<rparr>) h' mid = v) \<and>
      (\<forall>k. mid < k \<and> k < 2 * mid \<longrightarrow>
         slot_bytes (a\<lparr>coll := Some c'\<rparr>) h' k = replicate (indexarray_stride (Some a)) 0) \<and>
      \<not> live h' (collection_get_buffer (coll a)) \<and>
      collection_get_buffer (Some c') = Ptr (length h) 0 \<and>
      owns_buffer c' = owns_buffer (the (coll a)) \<and>
      length h' = Suc (length h) \<and>
      (\<forall>b' < length h. (\<forall>off. collection_get_buffer (coll a) \<noteq> Ptr b' off) \<longrightarrow> h' ! b' = h ! b')"
proof -
  from wf obtain c b i j bs where f: "coll a = Some c" "bucket c = Ptr b i" "end_ptr c = Ptr b j"
    "i \<le> j" "0 < stride c" "b < length h" "h ! b = Some bs" "j \<le> length bs"
    by (rule well_formedE)
  define s where "s = stride c"
  define n where "n = length h"
  have s0: "0 < s" using f by (simp add: s_def)
  have capeq: "cap = (j - i) div stride c"
    using f by (simp add: cap_def capacity_wf)
  define M where "M = (if (j - i) div stride c = 0 then 8 else (j - i) div stride c * 2)"
  have M2: "M = 2 * mid" by (simp add: M_def mid_def capeq)
  have capmid: "cap \<le> mid" by (simp add: mid_def)
  define c' where "c' = c\<lparr>bucket := Ptr n 0, end_ptr := Ptr n (s * M)\<rparr>"
  from collection_grow_ok [OF f(2-8), of junk]
  obtain B0 where g: "collection_grow (Some junk) (Some c) h = (OK, Some c', (h @ [Some B0])[b := None])"
    and lenB0: "length B0 = s * M"
    and oldB0: "take (s * cap) B0 = take (s * cap) (drop i bs)"
    unfolding c'_def s_def n_def M_def capeq by blast
  define hg where "hg = (h @ [Some B0])[b := None]"
  define a1 where "a1 = a\<lparr>coll := Some c'\<rparr>"
  have bn: "b \<noteq> n" "b < n" using f by (simp_all add: n_def)
  have hgn: "hg ! n = Some B0" using bn by (simp add: hg_def n_def)
  have hgb: "hg ! b = None" using bn by (simp add: hg_def n_def nth_list_update)
  have lenhg: "length hg = Suc n" by (simp add: hg_def n_def)
  have c1: "coll a1 = Some c'" "bucket c' = Ptr n 0" "end_ptr c' = Ptr n (s * M)" "stride c' = s"
    by (simp_all add: a1_def c'_def s_def)
  have wf1: "well_formed a1 hg"
    using c1 s0 lenhg hgn lenB0 by (simp add: well_formed_def)
  have cap1: "indexarray_capacity (Some a1) = 2 * mid"
    using capacity_wf [OF c1(1-3)] c1(4) s0 M2 by simp
  have str1: "indexarray_stride (Some a1) = s" "indexarray_stride (Some a) = s"
    using c1 f by (simp_all add: indexarray_stride_def collection_get_stride_def s_def)
  have sp1: "\<And>k. slot_ptr a1 k = Ptr n (k * s)"
    using c1 by (simp add: slot_ptr_def collection_get_buffer_def collection_get_stride_def)
  define hz where "hz = store hg (Ptr n (mid * s)) (replicate (mid * s) 0)"
  define hf where "hf = store hz (slot_ptr a1 mid) (load hz val s)"
  have addeq: "indexarray_add (Some junk) (Some a) val h =
        (int_of_usize mid, Some (a\<lparr>coll := Some c', next_slot := mid + 1\<rparr>), hf)"
    using full f(1) g cap1 c1 val
    by (simp add: indexarray_add_def scan_of_def Let_def a1_def [symmetric] hg_def [symmetric]
        collection_get_buffer_def collection_get_stride_def memset0_def memcpy_def
        hz_def hf_def sp1 s_def)
  have hzn: "hz ! n = Some (take (mid * s) B0 @ replicate (mid * s) 0)"
  proof -
    have "mid * s + length (replicate (mid * s) (0::byte)) \<le> length B0"
      by (simp add: lenB0 M2)
    from store_nth_same [OF _ hgn this] lenhg lenB0 M2 show ?thesis
      by (simp add: hz_def)
  qed
  have wfz: "well_formed a1 hz" unfolding hz_def using wf1 by (rule well_formed_store)
  have wff: "well_formed a1 hf" unfolding hf_def using wfz by (rule well_formed_store)
  have lenhz: "length hz = Suc n" by (simp add: hz_def lenhg)
  have slot_z: "\<And>k. slot_bytes a1 hz k = take s (drop (k * s) (take (mid * s) B0 @ replicate (mid * s) 0))"
    using hzn lenhz c1 by (simp add: slot_bytes_def sp1 load_def collection_get_stride_def)
  have low: "slot_bytes a1 hz k = slot_bytes a h k" if "k < cap" for k
  proof -
    have "Suc k * s \<le> cap * s" using that by (intro mult_le_mono1) simp
    then have e1: "k * s + s \<le> cap * s" by simp
    then have k1: "k * s + s \<le> s * cap" by (simp add: mult.commute)
    have e2: "cap * s \<le> mid * s" using capmid by (rule mult_le_mono1)
    have k2: "k * s + s \<le> mid * s" using e1 e2 by (rule order_trans)
    have lb: "mid * s \<le> length B0" by (simp add: lenB0 M2)
    have "slot_bytes a1 hz k = take s (drop (k * s) (take (mid * s) B0))"
      using k2 lb by (simp add: slot_z)
    also have "\<dots> = take s (drop (k * s) B0)" using k2 by (rule take_drop_take)
    also have "\<dots> = take s (drop (k * s) (take (s * cap) B0))"
      using k1 by (rule take_drop_take [symmetric])
    also have "\<dots> = take s (drop (k * s) (take (s * cap) (drop i bs)))" by (simp only: oldB0)
    also have "\<dots> = take s (drop (k * s) (drop i bs))" using k1 by (rule take_drop_take)
    also have "\<dots> = slot_bytes a h k"
      using f by (simp add: slot_bytes_def slot_ptr_def load_def collection_get_buffer_def
          collection_get_stride_def s_def add.commute)
    finally show ?thesis .
  qed
  have high: "slot_bytes a1 hz k = replicate s 0" if "mid \<le> k" "k < 2 * mid" for k
  proof -
    have lb: "length (take (mid * s) B0) = mid * s" by (simp add: lenB0 M2)
    have ge: "mid * s \<le> k * s" using that(1) by (rule mult_le_mono1)
    have "Suc k * s \<le> (2 * mid) * s" using that(2) by (intro mult_le_mono1) simp
    then have up: "k * s + s \<le> mid * s + mid * s" by simp
    have "slot_bytes a1 hz k = take s (drop (k * s - mid * s) (replicate (mid * s) (0::byte)))"
      using ge lb by (simp add: slot_z)
    also have "\<dots> = replicate s 0" using ge up by (simp add: min_def)
    finally show ?thesis .
  qed
  have lenv: "length (load hz val s) \<le> indexarray_stride (Some a1)"
    by (simp add: str1 load_length_le)
  have p1: "\<forall>k < cap. slot_bytes a1 hf k = slot_bytes a h k"
  proof (intro allI impI)
    fix k assume k: "k < cap"
    then have "mid \<noteq> k" using capmid by simp
    from slot_store_other [OF wfz this lenv] low [OF k]
    show "slot_bytes a1 hf k = slot_bytes a h k" by (simp add: hf_def)
  qed
  have midlt: "mid < indexarray_capacity (Some a1)" by (simp add: cap1 mid_def)
  have hzb: "hz ! b' = h ! b'" if "b' < length h" "b' \<noteq> b" for b'
  proof -
    have "hz ! b' = hg ! b'" using that by (simp add: hz_def store_nth_other n_def)
    also have "\<dots> = h ! b'" using that by (simp add: hg_def nth_list_update nth_append)
    finally show ?thesis .
  qed
  have p2: "\<forall>v. value_at h val a v \<longrightarrow> slot_bytes a1 hf mid = v"
  proof (intro allI impI)
    fix v assume va: "value_at h val a v"
    from va wf obtain vb voff where v: "val = Ptr vb voff" "vb < length h"
      "\<forall>off. collection_get_buffer (coll a) \<noteq> Ptr vb off"
      "length v = indexarray_stride (Some a)" "load h val (indexarray_stride (Some a)) = v"
      by (rule value_atE)
    have ne: "vb \<noteq> b" using v(3) f by (auto simp: collection_get_buffer_def)
    have "load hz (Ptr vb voff) s = load h (Ptr vb voff) s"
      using v(2) lenhz hzb [OF v(2) ne] by (intro load_block_cong) (simp_all add: n_def)
    then have ld: "load hz val s = v" using v by (simp add: str1)
    then have "length (load hz val s) = indexarray_stride (Some a1)"
      using v(4) by (simp add: str1)
    from slot_store_same [OF wfz midlt this] ld show "slot_bytes a1 hf mid = v"
      by (simp add: hf_def)
  qed
  have p3: "\<forall>k. mid < k \<and> k < 2 * mid \<longrightarrow> slot_bytes a1 hf k = replicate (indexarray_stride (Some a)) 0"
  proof (intro allI impI)
    fix k assume k: "mid < k \<and> k < 2 * mid"
    then have "mid \<noteq> k" "mid \<le> k" "k < 2 * mid" by simp_all
    from slot_store_other [OF wfz this(1) lenv] high [OF this(2,3)]
    show "slot_bytes a1 hf k = replicate (indexarray_stride (Some a)) 0"
      by (simp add: hf_def str1)
  qed
  have hfb: "hf ! b' = hg ! b'" if "b' \<noteq> n" for b'
    using that by (simp add: hf_def hz_def sp1 store_nth_other)
  have p4: "\<not> live hf (collection_get_buffer (coll a))"
    using f hfb [OF bn(1)] hgb by (simp add: collection_get_buffer_def)
  have p5: "length hf = Suc (length h)" by (simp add: hf_def lenhz n_def)
  have p6: "\<forall>b' < length h. (\<forall>off. collection_get_buffer (coll a) \<noteq> Ptr b' off) \<longrightarrow> hf ! b' = h ! b'"
  proof (intro allI impI)
    fix b' assume b': "b' < length h" and l: "\<forall>off. collection_get_buffer (coll a) \<noteq> Ptr b' off"
    have ne: "b' \<noteq> b" using l f by (auto simp: collection_get_buffer_def)
    have "hf ! b' = hg ! b'" using b' by (intro hfb) (simp add: n_def)
    also have "\<dots> = h ! b'" using b' ne by (simp add: hg_def nth_list_update nth_append)
    finally show "hf ! b' = h ! b'" .
  qed
  have p7: "collection_get_buffer (Some c') = Ptr (length h) 0" "owns_buffer c' = owns_buffer (the (coll a))"
    using f by (simp_all add: collection_get_buffer_def c'_def n_def)
  have str: "indexarray_stride (Some a1) = indexarray_stride (Some a)" by (simp add: str1)
  note facts = addeq wff cap1 str p1 p2 p3 p4 p5 p6 p7
  show ?thesis
    apply (rule exI [of _ c'], rule exI [of _ hf])
    apply (insert facts [unfolded a1_def])
    apply (intro conjI)
    apply (assumption | simp)+
    done
qed

section \<open>Steps and runs\<close>

lemma no_empty_slot_iff: "no_empty_slot (Some a) h = (scan_of a h = None)"
  by (auto simp: no_empty_slot_def scan_of_None_iff list_all_iff is_empty_slot_eq)

lemma rotation_inj:
  assumes "m' < m" "m < (cap::nat)"
  shows "(nxt + m') mod cap \<noteq> (nxt + m) mod cap"
proof
  assume "(nxt + m') mod cap = (nxt + m) mod cap"
  then have "(nxt + m) mod cap = (nxt + m') mod cap" by simp
  moreover have "nxt + m' \<le> nxt + m" using assms by simp
  ultimately have "cap dvd (nxt + m) - (nxt + m')" by (simp add: mod_eq_dvd_iff_nat)
  then have "cap dvd m - m'" by simp
  moreover have "0 < m - m'" "m - m' < cap" using assms by simp_all
  ultimately show False by (meson dvd_imp_le not_less)
qed

lemma add_step:
  assumes wf: "well_formed a h" and add: "indexarray_add reply (Some a) val h = (hnd, ia', h')"
  shows "\<exists>a'. ia' = Some a' \<and> well_formed a' h' \<and>
      indexarray_stride (Some a') = indexarray_stride (Some a) \<and>
      indexarray_capacity (Some a) \<le> indexarray_capacity (Some a') \<and>
      ((indexarray_capacity (Some a) < indexarray_capacity (Some a')) =
         (val \<noteq> Null \<and> reply \<noteq> None \<and> scan_of a h = None)) \<and>
      (\<forall>k < indexarray_capacity (Some a). \<not> bytes_all_zero (slot_bytes a h k) \<longrightarrow>
         slot_bytes a' h' k = slot_bytes a h k)"
proof (cases "val = Null")
  case True
  then show ?thesis using add wf by (auto simp: indexarray_add_def)
next
  case val: False
  show ?thesis
  proof (cases "scan_of a h")
    case found: (Some k0)
    define xs where "xs = load h val (indexarray_stride (Some a))"
    have len: "length xs \<le> indexarray_stride (Some a)" by (simp add: xs_def load_length_le)
    have e: "bytes_all_zero (slot_bytes a h k0)" using found by (simp add: scan_of_Some)
    have keep: "slot_bytes a (store h (slot_ptr a k0) xs) k = slot_bytes a h k"
      if "\<not> bytes_all_zero (slot_bytes a h k)" for k
    proof -
      have "k0 \<noteq> k" using that e by auto
      then show ?thesis using wf len by (intro slot_store_other)
    qed
    have wf': "well_formed a (store h (slot_ptr a k0) xs)"
      using wf by (rule well_formed_store)
    show ?thesis
      using add val wf' keep found by (auto simp: add_found [OF found val] xs_def [symmetric])
  next
    case full: None
    show ?thesis
    proof (cases reply)
      case None
      then show ?thesis
        using add val wf add_grow_fail [OF full well_formed_coll [OF wf], of val] by auto
    next
      case r: (Some junk)
      define mid where "mid = (if indexarray_capacity (Some a) = 0 then 4 else indexarray_capacity (Some a))"
      from add_grow_ok [OF wf full val, of junk]
      obtain c' hf where g: "indexarray_add (Some junk) (Some a) val h =
          (int_of_usize mid, Some (a\<lparr>coll := Some c', next_slot := mid + 1\<rparr>), hf)"
        "well_formed (a\<lparr>coll := Some c'\<rparr>) hf"
        "indexarray_capacity (Some (a\<lparr>coll := Some c'\<rparr>)) = 2 * mid"
        "indexarray_stride (Some (a\<lparr>coll := Some c'\<rparr>)) = indexarray_stride (Some a)"
        "\<forall>k < indexarray_capacity (Some a). slot_bytes (a\<lparr>coll := Some c'\<rparr>) hf k = slot_bytes a h k"
        unfolding mid_def by blast
      have "indexarray_capacity (Some a) < 2 * mid" by (simp add: mid_def)
      then show ?thesis
        using add val r g full by auto
    qed
  qed
qed


lemma remove_step:
  assumes "well_formed a h" "indexarray_remove_at (Some a) k h = (rc, ia', h')"
  shows "ia' = Some a \<and> well_formed a h'"
  using assms by (auto simp: remove_at_eq split: if_splits intro: well_formed_store)

lemma clear_step:
  assumes "well_formed a h" "indexarray_clear (Some a) h = (ia', h')"
  shows "\<exists>a'. ia' = Some a' \<and> well_formed a' h' \<and> indexarray_capacity (Some a') = indexarray_capacity (Some a)"
  using assms by (auto simp: indexarray_clear_def Let_def memset0_def intro: well_formed_store)

lemma apply_op_step:
  assumes "well_formed a h" "apply_op op (Some a, h) = (ia', h')"
  shows "\<exists>a'. ia' = Some a' \<and> well_formed a' h' \<and>
      indexarray_capacity (Some a) \<le> indexarray_capacity (Some a') \<and>
      ((indexarray_capacity (Some a) < indexarray_capacity (Some a')) = grows op (Some a, h))"
proof (cases op)
  case (Add val reply)
  obtain hnd where "indexarray_add reply (Some a) val h = (hnd, ia', h')"
    using assms(2) Add by (auto split: prod.splits)
  from add_step [OF assms(1) this] show ?thesis
    using Add by (auto simp: no_empty_slot_iff)
next
  case (Remove_at k)
  obtain rc where "indexarray_remove_at (Some a) k h = (rc, ia', h')"
    using assms(2) Remove_at by (auto split: prod.splits)
  from remove_step [OF assms(1) this] show ?thesis using Remove_at by simp
next
  case Clear
  then have "indexarray_clear (Some a) h = (ia', h')" using assms(2) by simp
  from clear_step [OF assms(1) this] show ?thesis using Clear by auto
qed

lemma run_invariant:
  assumes "well_formed a h" "run prog (Some a, h) = (ia', h')"
  shows "\<exists>a'. ia' = Some a' \<and> well_formed a' h' \<and>
      indexarray_capacity (Some a) \<le> indexarray_capacity (Some a')"
  using assms
proof (induction prog arbitrary: a h)
  case Nil
  then show ?case by (auto simp: run_def)
next
  case (Cons op prog)
  obtain ia1 h1 where s: "apply_op op (Some a, h) = (ia1, h1)" by (cases "apply_op op (Some a, h)")
  from apply_op_step [OF Cons.prems(1) s] obtain a1 where a1: "ia1 = Some a1" "well_formed a1 h1"
    "indexarray_capacity (Some a) \<le> indexarray_capacity (Some a1)" by blast
  have "run prog (Some a1, h1) = (ia', h')" using Cons.prems(2) s a1 by (simp add: run_def)
  from Cons.IH [OF a1(2) this] a1(3) show ?case by auto
qed

lemma add_stores_value:
  assumes "well_formed a h" "value_at h val a v"
    "indexarray_add reply (Some a) val h = (hnd, ia', h')" "hnd \<noteq> ERR"
    "indexarray_capacity ia' \<le> 2147483648"
  shows "\<exists>a' k. ia' = Some a' \<and> hnd = int k \<and> k < indexarray_capacity (Some a') \<and>
           indexarray_stride (Some a') = indexarray_stride (Some a) \<and>
           slot_bytes a' h' k = v"
proof -
  from assms(2,1) obtain vb voff where v: "val = Ptr vb voff"
    "length v = indexarray_stride (Some a)" "load h val (indexarray_stride (Some a)) = v"
    by (elim value_atE) blast
  have val: "val \<noteq> Null" using v(1) by simp
  show ?thesis
  proof (cases "scan_of a h")
    case (Some k0)
    then have lt: "k0 < indexarray_capacity (Some a)" by (simp add: scan_of_Some)
    have sl: "slot_bytes a (store h (slot_ptr a k0) v) k0 = v"
      using assms(1) v(2) lt by (intro slot_store_same) simp_all
    from assms(3) have r: "hnd = int_of_usize k0"
      "ia' = Some (a\<lparr>next_slot := (k0 + 1) mod indexarray_capacity (Some a)\<rparr>)"
      "h' = store h (slot_ptr a k0) v"
      using v(3) by (auto simp: add_found [OF Some val])
    have "k0 < 2147483648" using lt assms(5) r(2) by simp
    then have "hnd = int k0" using r(1) by (simp add: int_of_usize_small)
    then show ?thesis
      using lt sl
      by (intro exI [of _ "a\<lparr>next_slot := (k0 + 1) mod indexarray_capacity (Some a)\<rparr>"]
          exI [of _ k0]) (simp add: r(2,3))
  next
    case None
    show ?thesis
    proof (cases reply)
      case n: None
      then show ?thesis
        using assms(3,4) add_grow_fail [OF None well_formed_coll [OF assms(1)], of val] by simp
    next
      case (Some junk)
      define mid where "mid = (if indexarray_capacity (Some a) = 0 then 4 else indexarray_capacity (Some a))"
      from add_grow_ok [OF assms(1) None val, of junk]
      obtain c' hf where g: "indexarray_add (Some junk) (Some a) val h =
          (int_of_usize mid, Some (a\<lparr>coll := Some c', next_slot := mid + 1\<rparr>), hf)"
        "indexarray_capacity (Some (a\<lparr>coll := Some c'\<rparr>)) = 2 * mid"
        "indexarray_stride (Some (a\<lparr>coll := Some c'\<rparr>)) = indexarray_stride (Some a)"
        "slot_bytes (a\<lparr>coll := Some c'\<rparr>) hf mid = v"
        using assms(2) unfolding mid_def by blast
      have m0: "0 < mid" by (simp add: mid_def)
      from g(1) assms(3) Some have r: "hnd = int_of_usize mid"
        "ia' = Some (a\<lparr>coll := Some c', next_slot := mid + 1\<rparr>)" "h' = hf"
        by auto
      have "2 * mid \<le> 2147483648" using g(2) assms(5) r(2) by simp
      then have "mid < 2147483648" using m0 by simp
      then have "hnd = int mid" using r(1) by (simp add: int_of_usize_small)
      then show ?thesis
        using g(2-4) m0
        by (intro exI [of _ "a\<lparr>coll := Some c', next_slot := mid + 1\<rparr>"] exI [of _ mid])
          (simp add: r(2,3))
    qed
  qed
qed




section \<open>The constructors\<close>

lemma indexarray_new_eq:
  assumes "0 < strd"
  shows "indexarray_new True (Some junk) cap strd h =
     (Some \<lparr>coll = Some \<lparr>bucket = Ptr (length h) 0, end_ptr = Ptr (length h) (cap * strd),
                          stride = strd, coll_length = 0, owns_buffer = True\<rparr>,
            next_slot = 0\<rparr>,
      h @ [Some (replicate (cap * strd) 0)])"
proof -
  define J where "J = take (cap * strd) (junk @ replicate (cap * strd) (0::byte))"
  have lenJ: "length J = cap * strd" by (simp add: J_def)
  have alloc: "Allocator_alloc (Some junk) (cap * strd) h = (Ptr (length h) 0, h @ [Some J])"
    by (simp add: Allocator_alloc_def J_def)
  have z: "store (h @ [Some bs]) (Ptr (length h) 0) (replicate (cap * strd) 0)
           = h @ [Some (replicate (cap * strd) 0)]" if "length bs = cap * strd" for bs :: "byte list"
    using that by (simp add: store_def)
  show ?thesis
    using assms lenJ
    by (simp add: indexarray_new_def collection_new_def array_alloc_struct_with_bucket_def alloc
        memset0_def z collection_get_buffer_def)
qed

lemma indexarray_new_well_formed:
  assumes "indexarray_new struct_ok reply cap strd h = (Some a, h')"
  shows "well_formed a h' \<and> indexarray_capacity (Some a) = cap \<and>
         indexarray_stride (Some a) = strd \<and> next_slot a = 0 \<and>
         (\<forall>k < cap. indexarray_is_empty_slot (Some a) k h')"
proof -
  from assms have s: "0 < strd" and ok: "struct_ok"
    by (auto simp: indexarray_new_def split: if_splits)
  from assms s ok obtain junk where r: "reply = Some junk"
    by (cases reply) (auto simp: indexarray_new_def collection_new_def
        array_alloc_struct_with_bucket_def Allocator_alloc_def)
  from assms indexarray_new_eq [OF s, of junk cap h] ok r
  have a: "a = \<lparr>coll = Some \<lparr>bucket = Ptr (length h) 0, end_ptr = Ptr (length h) (cap * strd),
                          stride = strd, coll_length = 0, owns_buffer = True\<rparr>, next_slot = 0\<rparr>"
    and h': "h' = h @ [Some (replicate (cap * strd) 0)]" by simp_all
  have wf: "well_formed a h'" using s by (simp add: a h' well_formed_def)
  have cap: "indexarray_capacity (Some a) = cap"
    using s by (simp add: a indexarray_capacity_def collection_get_buffer_def collection_get_end_def
        collection_get_stride_def)
  have str: "indexarray_stride (Some a) = strd"
    by (simp add: a indexarray_stride_def collection_get_stride_def)
  have "bytes_all_zero (slot_bytes a h' k)" for k
    by (simp add: a h' slot_bytes_def slot_ptr_def load_def collection_get_buffer_def
        collection_get_stride_def bytes_all_zero_iff)
  then show ?thesis using wf cap str by (simp add: is_empty_slot_eq a)
qed

lemma indexarray_from_buffer_well_formed:
  assumes "indexarray_from_buffer struct_ok coll_ok (Ptr b i) (Ptr b j) strd = Some a"
    "b < length h" "h ! b = Some bs" "j \<le> length bs"
  shows "well_formed a h \<and> indexarray_capacity (Some a) = (j - i) div strd \<and>
         indexarray_stride (Some a) = strd"
  using assms
  by (auto simp: indexarray_from_buffer_def well_formed_def indexarray_capacity_def
      indexarray_stride_def collection_get_buffer_def collection_get_end_def
      collection_get_stride_def split: if_splits)

section \<open>Who releases the bucket\<close>

lemma live_store: "live (store h p xs) q = live h q"
proof (cases p)
  case Null
  then show ?thesis by (simp add: store_def)
next
  case (Ptr b off)
  show ?thesis
  proof (cases q)
    case Null
    then show ?thesis by simp
  next
    case q: (Ptr b' off')
    show ?thesis
      using Ptr q by (auto simp: store_def nth_list_update split: option.splits)
  qed
qed

lemma remove_at_keeps_live:
  "indexarray_remove_at ia k h = (rc, ia', h') \<Longrightarrow> live h' q = live h q"
  by (cases ia)
    (auto simp: indexarray_remove_at_def Let_def zero_slot_def memset0_def live_store
      split: if_splits)

lemma clear_keeps_live:
  "indexarray_clear ia h = (ia', h') \<Longrightarrow> live h' q = live h q"
  by (cases ia) (auto simp: indexarray_clear_def Let_def memset0_def live_store split: if_splits)

lemma add_reuse_keeps_live:
  assumes "scan_of a h \<noteq> None" "indexarray_add reply (Some a) val h = (hnd, ia', h')"
  shows "live h' q = live h q"
proof (cases "val = Null")
  case True
  then show ?thesis using assms(2) by (simp add: indexarray_add_def)
next
  case False
  from assms(1) obtain k where "scan_of a h = Some k" by blast
  from add_found [OF this False, of reply] assms(2) show ?thesis
    by (auto simp: live_store)
qed

lemma dispose_view_keeps_heap:
  "coll a = Some c \<Longrightarrow> \<not> owns_buffer c \<Longrightarrow> indexarray_dispose (Some a) h = h"
  by (simp add: indexarray_dispose_def collection_dispose_def)

lemma dispose_owned_releases_bucket:
  "well_formed a h \<Longrightarrow> owns_buffer (the (coll a)) \<Longrightarrow>
   \<not> live (indexarray_dispose (Some a) h) (collection_get_buffer (coll a))"
  by (auto elim!: well_formedE
      simp: indexarray_dispose_def collection_dispose_def collection_get_buffer_def)

lemma add_growth_releases_bucket:
  assumes "well_formed a h" "no_empty_slot (Some a) h" "val \<noteq> Null"
  shows "live h (collection_get_buffer (coll a)) \<and>
         \<not> live (snd (snd (indexarray_add (Some junk) (Some a) val h)))
              (collection_get_buffer (coll a))"
proof -
  have full: "scan_of a h = None" using assms(2) by (simp add: no_empty_slot_iff)
  have "live h (collection_get_buffer (coll a))"
    using assms(1) by (auto elim!: well_formedE simp: collection_get_buffer_def)
  moreover from add_grow_ok [OF assms(1) full assms(3), of junk]
  have "\<not> live (snd (snd (indexarray_add (Some junk) (Some a) val h)))
              (collection_get_buffer (coll a))" by auto
  ultimately show ?thesis by simp
qed

section \<open>The iterator\<close>

lemma filter_upt_Cons:
  "filter P [m..<n] = c # rest \<Longrightarrow> m \<le> c \<and> c < n \<and> P c \<and> rest = filter P [Suc c..<n]"
proof (induction "n - m" arbitrary: m)
  case 0
  then show ?case by simp
next
  case (Suc d)
  then have lt: "m < n" by simp
  then have upt: "[m..<n] = m # [Suc m..<n]" by (rule upt_conv_Cons)
  show ?case
  proof (cases "P m")
    case True
    then show ?thesis using Suc.prems lt by (auto simp: upt)
  next
    case False
    then have "filter P [Suc m..<n] = c # rest" using Suc.prems by (simp add: upt)
    moreover have "d = n - Suc m" using Suc.hyps(2) by simp
    ultimately have "Suc m \<le> c \<and> c < n \<and> P c \<and> rest = filter P [Suc c..<n]"
      by (rule Suc.hyps(1) [rotated])
    then show ?thesis by simp
  qed
qed

lemma sparse_iter_search_spec:
  "sparse_iter_search t obj h i =
     (case filter (\<lambda>k. \<not> is_empty_slot t obj k h) [current i..<it_capacity i] of
        [] \<Rightarrow> (False, i\<lparr>current := max (current i) (it_capacity i)\<rparr>)
      | c # rest \<Rightarrow> (True, i\<lparr>current := c, positioned := True\<rparr>))"
proof (induction t obj h i rule: sparse_iter_search.induct)
  case (1 t obj h i)
  show ?case
  proof (cases "current i < it_capacity i")
    case False
    then show ?thesis
      by (simp add: sparse_iter_search.simps [of t obj h i] max_def)
  next
    case True
    then have upt: "[current i..<it_capacity i] = current i # [Suc (current i)..<it_capacity i]"
      by (rule upt_conv_Cons)
    show ?thesis
    proof (cases "is_empty_slot t obj (current i) h")
      case False
      then show ?thesis
        using True by (simp add: sparse_iter_search.simps [of t obj h i] upt)
    next
      case e: True
      have m: "max (Suc (current i)) (it_capacity i) = max (current i) (it_capacity i)"
        using True by (simp add: max_def)
      show ?thesis
        using True e "1.IH" [OF True] m
        by (simp add: sparse_iter_search.simps [of t obj h i] upt split: list.splits)
    qed
  qed
qed

lemma sparse_iter_indices_spec:
  assumes "ops i = Some t"
  shows "sparse_iter_indices obj h (Some i) =
     (filter (\<lambda>k. \<not> is_empty_slot t obj k h)
        [(if positioned i then current i + 1 else current i)..<it_capacity i],
      Some (i\<lparr>current := max (if positioned i then current i + 1 else current i) (it_capacity i),
              positioned := False\<rparr>))"
  using assms
proof (induction "it_capacity i - (if positioned i then current i + 1 else current i)"
    arbitrary: i rule: less_induct)
  case less
  define c0 where "c0 = (if positioned i then current i + 1 else current i)"
  define i1 where "i1 = (if positioned i then i\<lparr>current := current i + 1, positioned := False\<rparr> else i)"
  have i1: "current i1 = c0" "it_capacity i1 = it_capacity i" "positioned i1 = False" "ops i1 = Some t"
    using less.prems by (simp_all add: i1_def c0_def)
  have i1upd: "i1\<lparr>current := x, positioned := y\<rparr> = i\<lparr>current := x, positioned := y\<rparr>" for x y
    by (simp add: i1_def)
  have i1eq: "i1\<lparr>current := x\<rparr> = i\<lparr>current := x, positioned := False\<rparr>" for x
    by (cases "positioned i") (simp_all add: i1_def)
  have nx: "sparse_iter_next obj h (Some i) =
      (case sparse_iter_search t obj h i1 of (found, i2) \<Rightarrow> (found, Some i2))"
    using less.prems by (simp add: sparse_iter_next_def i1_def)
  show ?case
  proof (cases "filter (\<lambda>k. \<not> is_empty_slot t obj k h) [c0..<it_capacity i]")
    case Nil
    then have "sparse_iter_search t obj h i1 = (False, i1\<lparr>current := max c0 (it_capacity i)\<rparr>)"
      by (simp add: sparse_iter_search_spec i1)
    moreover note i1eq [of "max c0 (it_capacity i)"]
    ultimately show ?thesis
      using Nil by (simp add: sparse_iter_indices.simps [of obj h "Some i"] nx c0_def [symmetric])
  next
    case (Cons c rest)
    from filter_upt_Cons [OF Cons] have c: "c0 \<le> c" "c < it_capacity i"
      "rest = filter (\<lambda>k. \<not> is_empty_slot t obj k h) [Suc c..<it_capacity i]" by simp_all
    define i2 where "i2 = i\<lparr>current := c, positioned := True\<rparr>"
    have s: "sparse_iter_search t obj h i1 = (True, i2)"
      using Cons by (simp add: sparse_iter_search_spec i1 i2_def i1upd)
    have i2: "current i2 = c" "it_capacity i2 = it_capacity i" "positioned i2" "ops i2 = Some t"
      using less.prems by (simp_all add: i2_def)
    have "it_capacity i2 - (if positioned i2 then current i2 + 1 else current i2)
          < it_capacity i - (if positioned i then current i + 1 else current i)"
      using c i2 by (simp add: c0_def [symmetric])
    from less.hyps [OF this i2(4)] have ih: "sparse_iter_indices obj h (Some i2) =
       (rest, Some (i2\<lparr>current := max (Suc c) (it_capacity i), positioned := False\<rparr>))"
      using i2 c(3) by simp
    have m: "max (Suc c) (it_capacity i) = max c0 (it_capacity i)"
      using c by (simp add: max_def)
    show ?thesis
      using Cons s ih m
      by (simp add: sparse_iter_indices.simps [of obj h "Some i"] nx c0_def [symmetric]
          sparse_iter_current_index_def i2 i2_def)
  qed
qed

lemma sparse_iter_next_keeps:
  assumes "ops i = Some t"
  shows "\<exists>i'. snd (sparse_iter_next obj h (Some i)) = Some i' \<and> ops i' = Some t \<and>
              it_capacity i' = it_capacity i"
  using assms
  by (auto simp: sparse_iter_next_def Let_def sparse_iter_search_spec split: list.splits)

lemma sparse_iter_advance_keeps:
  assumes "ops i = Some t"
  shows "\<exists>i'. sparse_iter_advance n obj h (Some i) = Some i' \<and> ops i' = Some t \<and>
              it_capacity i' = it_capacity i"
  using assms
proof (induction n arbitrary: i)
  case 0
  then show ?case by simp
next
  case (Suc n)
  from sparse_iter_next_keeps [OF Suc.prems, of obj h] obtain i1 where
    i1: "snd (sparse_iter_next obj h (Some i)) = Some i1" "ops i1 = Some t"
      "it_capacity i1 = it_capacity i" by blast
  from Suc.IH [OF i1(2)] i1 show ?case by simp
qed

lemma sparse_iter_reset_indices:
  assumes "ops i = Some t"
  shows "fst (sparse_iter_indices obj h (sparse_iter_reset (Some i))) =
           filter (\<lambda>k. \<not> is_empty_slot t obj k h) [0..<it_capacity i]"
  using sparse_iter_indices_spec [of "i\<lparr>current := 0, positioned := False\<rparr>" t obj h] assms
  by (simp add: sparse_iter_reset_def)

section \<open>Containers of one-byte slots\<close>

text \<open>
  The containers of the examples, for every number of slots: what the search finds in
  a bucket whose slots hold 1 but for the last, and in a bucket whose slots all hold 1.
  With more than \<open>2^31\<close> slots they show what the cast of the slot index to
  \<^verbatim>\<open>int\<close> does.
\<close>

lemma take1_drop: "k < length zs \<Longrightarrow> take (Suc 0) (drop k zs) = [zs ! k]"
  by (metis Cons_nth_drop_Suc take0 take_Suc_Cons)

lemma bytes_array_props:
  "indexarray_capacity (Some (bytes_array blk n own nxt)) = n"
  "indexarray_stride (Some (bytes_array blk n own nxt)) = 1"
  "next_slot (bytes_array blk n own nxt) = nxt"
  "slot_ptr (bytes_array blk n own nxt) k = Ptr blk k"
  "(bytes_array blk n own nxt)\<lparr>next_slot := nxt'\<rparr> = bytes_array blk n own nxt'"
  by (simp_all add: bytes_array_def indexarray_capacity_def indexarray_stride_def slot_ptr_def
      collection_get_buffer_def collection_get_end_def collection_get_stride_def)

lemma bytes_array_slot:
  assumes "k < length bs"
  shows "slot_bytes (bytes_array 0 n own nxt) (Some bs # hs) k = [bs ! k]"
  using assms
  by (simp add: slot_bytes_def bytes_array_def slot_ptr_def load_def collection_get_buffer_def
      collection_get_stride_def take1_drop)

lemma bytes_array_well_formed:
  assumes "n \<le> length bs"
  shows "well_formed (bytes_array 0 n own nxt) (Some bs # hs)"
  using assms by (simp add: bytes_array_def well_formed_def)

lemma bytes_array_scan_last:
  assumes "nxt = 0 \<or> nxt = n"
  shows "scan_of (bytes_array 0 (Suc n) own nxt) (Some (replicate n 1 @ [0]) # hs) = Some n"
proof -
  let ?a = "bytes_array 0 (Suc n) own nxt"
  let ?h = "Some (replicate n (1::byte) @ [0]) # hs"
  define m where "m = (if nxt = 0 then n else 0)"
  have cap: "indexarray_capacity (Some ?a) = Suc n" "next_slot ?a = nxt"
    by (simp_all add: bytes_array_props)
  have idx: "(nxt + m) mod Suc n = n" using assms by (auto simp: m_def)
  have e: "slot_bytes ?a ?h n = [0]" by (simp add: bytes_array_slot nth_append)
  have o: "slot_bytes ?a ?h k = [1]" if "k < n" for k
    using that by (simp add: bytes_array_slot nth_append)
  have before: "(nxt + m') mod Suc n < n" if "m' < m" for m'
    using that by (auto simp: m_def split: if_splits)
  have "scan_of ?a ?h = Some ((next_slot ?a + m) mod indexarray_capacity (Some ?a))"
  proof (rule scan_of_first)
    show "m < indexarray_capacity (Some ?a)" by (simp add: cap m_def)
    show "bytes_all_zero (slot_bytes ?a ?h ((next_slot ?a + m) mod indexarray_capacity (Some ?a)))"
      by (simp add: cap idx e)
    show "\<forall>m' < m. \<not> bytes_all_zero
            (slot_bytes ?a ?h ((next_slot ?a + m') mod indexarray_capacity (Some ?a)))"
      using before by (simp add: cap o)
  qed
  then show ?thesis by (simp add: cap idx)
qed

lemma bytes_array_add_last:
  assumes "nxt = 0 \<or> nxt = n"
  shows "indexarray_add reply (Some (bytes_array 0 (Suc n) own nxt)) (Ptr 1 0)
           [Some (replicate n 1 @ [0]), Some [x]] =
         (int_of_usize n, Some (bytes_array 0 (Suc n) own 0),
          [Some (replicate n 1 @ [x]), Some [x]])"
proof -
  have st: "store [Some (replicate n (1::byte) @ [0]), Some [x]] (Ptr 0 n)
              (load [Some (replicate n (1::byte) @ [0]), Some [x]] (Ptr 1 0) 1) =
            [Some (replicate n 1 @ [x]), Some [x]]"
    by (simp add: store_def load_def)
  have "Ptr 1 0 \<noteq> Null" by simp
  from add_found [OF bytes_array_scan_last [OF assms, where own = own and hs = "[Some [x]]"] this,
      where reply = reply] st
  show ?thesis by (simp add: bytes_array_props)
qed

lemma bytes_array_full:
  assumes "n \<le> length bs" "0 \<notin> set bs"
  shows "scan_of (bytes_array 0 n own nxt) (Some bs # hs) = None"
proof -
  have "bs ! k \<noteq> 0" if "k < n" for k
    using that assms by (metis nth_mem order_less_le_trans)
  then show ?thesis
    using assms(1) by (simp add: scan_of_None_iff bytes_array_props bytes_array_slot)
qed


lemma bytes_array_out_of_range:
  assumes "n \<le> k"
  shows "indexarray_get_at (Some (bytes_array blk n own nxt)) k (Some out) h = (ERR, Some out)"
  using assms by (simp add: get_at_eq bytes_array_props)

lemma int_of_usize_huge:
  "int_of_usize 2147483648 = - 2147483648" "int_of_usize 2147483649 = - 2147483647"
  "usize_of_int (- 2147483648) = 18446744071562067968"
  by (simp_all add: int_of_usize_def usize_of_int_def)

section \<open>The repository's tests, on the model\<close>

text \<open>
  The scenarios of \<^verbatim>\<open>test_indexarray.c\<close> with the results they assert: growth from
  3 to 6 slots with the handles 0, 1, 2 and 3 and the first and the fourth record read
  back; reuse of a removed slot; a view of a caller's buffer with records at 0, 2 and 4,
  the add into slot 1 written to the caller's bytes, which are still there after the
  view is disposed; and the iteration that skips a removed slot. The records the tests
  insert are in blocks of their own, which are the first blocks of the heap.
\<close>

lemma test_indexarray_growth:
  "(case indexarray_new True (Some []) 3 8
           [Some (test_data 1 100), Some (test_data 2 200), Some (test_data 3 44),
            Some (test_data 4 144)] of
      (ia, h) \<Rightarrow>
        (case add_all [(Ptr 0 0, None), (Ptr 1 0, None), (Ptr 2 0, None)] (ia, h) of
           (hs, ia1, h1) \<Rightarrow>
             (case indexarray_add (Some []) ia1 (Ptr 3 0) h1 of
                (h4, ia2, h2) \<Rightarrow>
                  hs = [0, 1, 2] \<and> indexarray_capacity ia1 = 3 \<and> h4 = 3 \<and>
                  indexarray_capacity ia2 = 6 \<and>
                  indexarray_get_at ia2 0 (Some (replicate 8 0)) h2 = (OK, Some (test_data 1 100)) \<and>
                  indexarray_get_at ia2 3 (Some (replicate 8 0)) h2 = (OK, Some (test_data 4 144)))))"
  by code_simp

lemma test_indexarray_slot_reuse:
  "(case indexarray_new True (Some []) 3 8
           [Some (test_data 1 100), Some (test_data 2 200), Some (test_data 3 44),
            Some (test_data 4 144)] of
      (ia, h) \<Rightarrow>
        (case add_all [(Ptr 0 0, None), (Ptr 1 0, None), (Ptr 2 0, None)] (ia, h) of
           (hs, ia1, h1) \<Rightarrow>
             (case indexarray_remove_at ia1 1 h1 of
                (rc, ia2, h2) \<Rightarrow>
                  (case indexarray_add None ia2 (Ptr 3 0) h2 of
                     (h4, ia3, h3) \<Rightarrow>
                       hs = [0, 1, 2] \<and> rc = OK \<and> h4 = 1 \<and>
                       indexarray_get_at ia3 1 (Some (replicate 8 0)) h3 = (OK, Some (test_data 4 144))))))"
  by code_simp

lemma test_indexarray_from_buffer:
  "(case indexarray_from_buffer True True (Ptr 0 0) (Ptr 0 40) 8 of
      ia \<Rightarrow>
        (case [Some (test_data 10 100 @ replicate 8 0 @ test_data 20 200 @ replicate 8 0 @ test_data 30 44),
               Some (test_data 40 144)] of
           h \<Rightarrow>
             (case indexarray_add None ia (Ptr 1 0) h of
                (hnd, ia1, h1) \<Rightarrow>
                  indexarray_capacity ia = 5 \<and>
                  indexarray_get_at ia 0 (Some (replicate 8 0)) h = (OK, Some (test_data 10 100)) \<and>
                  indexarray_get_at ia 2 (Some (replicate 8 0)) h = (OK, Some (test_data 20 200)) \<and>
                  indexarray_is_empty_slot ia 1 h \<and> indexarray_is_empty_slot ia 3 h \<and>
                  \<not> indexarray_is_empty_slot ia 4 h \<and>
                  hnd = 1 \<and>
                  load h1 (Ptr 0 8) 8 = test_data 40 144 \<and>
                  indexarray_dispose ia1 h1 = h1 \<and> live h1 (Ptr 0 0))))"
  by code_simp

lemma test_indexarray_iterator_sparse:
  "(case indexarray_new True (Some []) 10 8
           [Some (test_data 1 100), Some (test_data 2 200), Some (test_data 3 44)] of
      (ia, h) \<Rightarrow>
        (case add_all [(Ptr 0 0, None), (Ptr 1 0, None), (Ptr 2 0, None)] (ia, h) of
           (hs, ia1, h1) \<Rightarrow>
             (case indexarray_remove_at ia1 1 h1 of
                (rc, ia2, h2) \<Rightarrow>
                  fst (sparse_iter_indices ia2 h2 (indexarray_create_iterator True ia2 h2)) = [0, 2])))"
  by code_simp

section \<open>The claims\<close>

text \<open>
  C1, as amended. Round trip: on every well-formed container (all that
  \<^verbatim>\<open>indexarray_new\<close> and \<^verbatim>\<open>indexarray_from_buffer\<close> make, and all that the
  operations make of them), for every value of stride bytes that are not all zero, held
  by the caller outside the bucket, when \<^verbatim>\<open>indexarray_add\<close> returns a handle and not
  \<open>ERR\<close> and the container then has at most \<open>2^31\<close> slots, the handle is not negative
  and \<^verbatim>\<open>indexarray_get_at\<close> on that handle returns \<open>OK\<close> and writes the bytes of the
  value to the front of the out buffer. The add may have found an empty slot or grown
  the bucket.
\<close>

theorem round_trip:
  assumes "well_formed a h" "value_at h val a v" "\<not> bytes_all_zero v"
    "indexarray_add reply (Some a) val h = (hnd, ia', h')" "hnd \<noteq> ERR"
    "indexarray_capacity ia' \<le> 2147483648"
  shows "0 \<le> hnd \<and>
         indexarray_get_at ia' (usize_of_int hnd) (Some out) h' = (OK, Some (v @ drop (length v) out))"
proof -
  from add_stores_value [OF assms(1,2,4,5,6)] obtain a' k where a': "ia' = Some a'" "hnd = int k"
    "k < indexarray_capacity (Some a')"
    "indexarray_stride (Some a') = indexarray_stride (Some a)"
    "slot_bytes a' h' k = v" by blast
  have "k < 2147483648" using a'(1,3) assms(6) by simp
  then have u: "usize_of_int hnd = k" using a'(2) by (simp add: usize_of_int_small)
  from assms(2,1) have len: "length v = indexarray_stride (Some a)" by (elim value_atE)
  have "indexarray_get_at (Some a') k (Some out) h' =
          (OK, Some (slot_bytes a' h' k @ drop (indexarray_stride (Some a')) out))"
    using a'(3,5) assms(3) by (simp add: get_at_eq)
  then show ?thesis using a' u len by simp
qed

text \<open>
  An instance: the caller's value \<open>[7]\<close> in block 0, a fresh container of two one-byte
  slots in block 1.
\<close>

theorem round_trip_witness:
  "indexarray_new True (Some []) 2 1 [Some [7]] =
     (Some (bytes_array 1 2 True 0), [Some [7], Some [0, 0]]) \<and>
   well_formed (bytes_array 1 2 True 0) [Some [7], Some [0, 0]] \<and>
   value_at [Some [7], Some [0, 0]] (Ptr 0 0) (bytes_array 1 2 True 0) [7] \<and>
   indexarray_add None (Some (bytes_array 1 2 True 0)) (Ptr 0 0) [Some [7], Some [0, 0]] =
     (0, Some (bytes_array 1 2 True 1), [Some [7], Some [7, 0]]) \<and>
   indexarray_get_at (Some (bytes_array 1 2 True 1)) (usize_of_int 0) (Some [9])
     [Some [7], Some [7, 0]] = (OK, Some [7])"
proof -
  have nw: "indexarray_new True (Some []) 2 1 [Some [7]] =
     (Some (bytes_array 1 2 True 0), [Some [7], Some [0, 0]])"
    by code_simp
  have wf: "well_formed (bytes_array 1 2 True 0) [Some [7], Some [0, 0]]" by code_simp
  have va: "value_at [Some [7], Some [0, 0]] (Ptr 0 0) (bytes_array 1 2 True 0) [7]" by code_simp
  have nz: "\<not> bytes_all_zero [7]" by simp
  have add: "indexarray_add None (Some (bytes_array 1 2 True 0)) (Ptr 0 0) [Some [7], Some [0, 0]] =
     (0, Some (bytes_array 1 2 True 1), [Some [7], Some [7, 0]])" by code_simp
  have cb: "indexarray_capacity (Some (bytes_array 1 2 True 1)) \<le> 2147483648"
    by (simp add: bytes_array_props)
  from round_trip [OF wf va nz add _ cb, where out = "[9]"] nw wf va add show ?thesis by simp
qed

text \<open>
  C1 as stated fails in two ways. For a value whose bytes are all zero: a fresh container
  of one one-byte slot accepts the value \<open>[0]\<close> with handle 0, and
  \<^verbatim>\<open>indexarray_get_at\<close> on handle 0 returns \<open>ERR\<close> and leaves the out buffer as it
  was. And beyond the range of \<^verbatim>\<open>int\<close>: in the view of a caller's \<open>2^31 + 1\<close> bytes
  of which only the last is 0, the add of \<open>[7]\<close> fills slot \<open>2^31\<close> and returns
  \<open>- 2^31\<close>, which is not \<open>ERR\<close> and which, passed as the \<^verbatim>\<open>usize\<close> index, is
  beyond the capacity: \<^verbatim>\<open>indexarray_get_at\<close> returns \<open>ERR\<close>.
\<close>

theorem round_trip_counterexample:
  "indexarray_new True (Some []) 1 1 [Some [0]] =
     (Some (bytes_array 1 1 True 0), [Some [0], Some [0]]) \<and>
   indexarray_add None (Some (bytes_array 1 1 True 0)) (Ptr 0 0) [Some [0], Some [0]] =
     (0, Some (bytes_array 1 1 True 0), [Some [0], Some [0]]) \<and>
   indexarray_get_at (Some (bytes_array 1 1 True 0)) (usize_of_int 0) (Some [9])
     [Some [0], Some [0]] = (ERR, Some [9]) \<and>
   indexarray_from_buffer True True (Ptr 0 0) (Ptr 0 2147483649) 1 =
     Some (bytes_array 0 2147483649 False 0) \<and>
   indexarray_add None (Some (bytes_array 0 2147483649 False 0)) (Ptr 1 0)
     [Some (replicate 2147483648 1 @ [0]), Some [7]] =
     (- 2147483648, Some (bytes_array 0 2147483649 False 0),
      [Some (replicate 2147483648 1 @ [7]), Some [7]]) \<and>
   indexarray_get_at (Some (bytes_array 0 2147483649 False 0)) (usize_of_int (- 2147483648))
     (Some [9]) [Some (replicate 2147483648 1 @ [7]), Some [7]] = (ERR, Some [9])"
proof -
  have z: "indexarray_new True (Some []) 1 1 [Some [0]] =
     (Some (bytes_array 1 1 True 0), [Some [0], Some [0]]) \<and>
   indexarray_add None (Some (bytes_array 1 1 True 0)) (Ptr 0 0) [Some [0], Some [0]] =
     (0, Some (bytes_array 1 1 True 0), [Some [0], Some [0]]) \<and>
   indexarray_get_at (Some (bytes_array 1 1 True 0)) (usize_of_int 0) (Some [9])
     [Some [0], Some [0]] = (ERR, Some [9])"
    by code_simp
  have v: "indexarray_from_buffer True True (Ptr 0 0) (Ptr 0 2147483649) 1 =
     Some (bytes_array 0 2147483649 False 0)"
    by (simp add: indexarray_from_buffer_def bytes_array_def)
  have a: "indexarray_add None (Some (bytes_array 0 2147483649 False 0)) (Ptr 1 0)
     [Some (replicate 2147483648 1 @ [0]), Some [7]] =
     (- 2147483648, Some (bytes_array 0 2147483649 False 0),
      [Some (replicate 2147483648 1 @ [7]), Some [7]])"
    using bytes_array_add_last [of 0 2147483648 None False 7] by (simp add: int_of_usize_huge)
  have g: "indexarray_get_at (Some (bytes_array 0 2147483649 False 0)) (usize_of_int (- 2147483648))
     (Some [9]) [Some (replicate 2147483648 1 @ [7]), Some [7]] = (ERR, Some [9])"
    by (simp add: bytes_array_out_of_range int_of_usize_huge)
  from z v a g show ?thesis by blast
qed




text \<open>
  C3. The code releases the caller's memory: \<^verbatim>\<open>collection_grow\<close> hands the old bucket
  to \<^verbatim>\<open>Allocator.dispose\<close> whatever \<^verbatim>\<open>owns_buffer\<close> says. Here the caller's block 0
  holds one byte, 7, and the caller's block 1 holds the value \<open>[9]\<close>; the view of block
  0 is fully occupied; the add of the value grows the bucket into block 2, and block 0
  is released although the container never owned it.
\<close>

theorem view_growth_releases_caller_buffer:
  "indexarray_from_buffer True True (Ptr 0 0) (Ptr 0 1) 1 = Some (bytes_array 0 1 False 0) \<and>
   live [Some [7], Some [9]] (Ptr 0 0) \<and>
   indexarray_add (Some []) (Some (bytes_array 0 1 False 0)) (Ptr 1 0) [Some [7], Some [9]] =
     (1, Some (bytes_array 2 2 False 2), [None, Some [9], Some [7, 9]]) \<and>
   \<not> live [None, Some [9], Some [7, 9]] (Ptr 0 0)"
  by code_simp




text \<open>
  C5. The sparse iterator: on every container, the indices that a fresh iterator visits
  under repeated \<^verbatim>\<open>next\<close> are the non-empty slots below the capacity, in strictly
  ascending order, each once; then \<^verbatim>\<open>next\<close> returns false. And \<^verbatim>\<open>reset\<close> starts
  the iteration over: after \<^verbatim>\<open>reset\<close> of the exhausted iterator, of the iterator
  after any number of calls of \<^verbatim>\<open>next\<close> (so in the middle of an iteration, positioned
  on a slot), and of the iterator in any state of its cursor and position flag, the
  iteration over the unchanged container visits the same indices, all of them, again.
\<close>

theorem sparse_iterator_visits_occupied:
  "(case sparse_iter_indices (Some a) h (indexarray_create_iterator True (Some a) h) of
      (ks, it1) \<Rightarrow>
        ks = filter (\<lambda>k. \<not> indexarray_is_empty_slot (Some a) k h) [0..<indexarray_capacity (Some a)] \<and>
        sorted_wrt (<) ks \<and> distinct ks \<and>
        set ks = {k. k < indexarray_capacity (Some a) \<and> \<not> indexarray_is_empty_slot (Some a) k h} \<and>
        \<not> fst (sparse_iter_next (Some a) h it1) \<and>
        fst (sparse_iter_indices (Some a) h (sparse_iter_reset it1)) = ks \<and>
        (\<forall>n. fst (sparse_iter_indices (Some a) h
                (sparse_iter_reset
                  (sparse_iter_advance n (Some a) h
                    (indexarray_create_iterator True (Some a) h)))) = ks) \<and>
        (\<forall>c p. fst (sparse_iter_indices (Some a) h
                (sparse_iter_reset
                  (Some \<lparr>ops = Some indexarray_sparse_ops, current = c,
                         it_capacity = indexarray_capacity (Some a), positioned = p\<rparr>))) = ks))"
proof -
  define cap where "cap = indexarray_capacity (Some a)"
  define i0 :: "sc_indexarray sparse_iterator_s" where
    "i0 = \<lparr>ops = Some indexarray_sparse_ops, current = 0, it_capacity = cap, positioned = False\<rparr>"
  define ks where "ks = filter (\<lambda>k. \<not> indexarray_is_empty_slot (Some a) k h) [0..<cap]"
  have mk: "indexarray_create_iterator True (Some a) h = Some i0"
    by (simp add: indexarray_create_iterator_def sparse_iterator_new_def i0_def cap_def
        indexarray_sparse_ops_def)
  have tbl: "is_empty_slot indexarray_sparse_ops = indexarray_is_empty_slot"
    by (simp add: indexarray_sparse_ops_def)
  have run: "sparse_iter_indices (Some a) h (Some i0) = (ks, Some (i0\<lparr>current := cap\<rparr>))"
    using sparse_iter_indices_spec [of i0 indexarray_sparse_ops "Some a" h]
    by (simp add: i0_def tbl ks_def)
  have rs: "sparse_iter_reset (Some (i0\<lparr>current := cap\<rparr>)) = Some i0"
    by (simp add: sparse_iter_reset_def i0_def)
  have nx: "\<not> fst (sparse_iter_next (Some a) h (Some (i0\<lparr>current := cap\<rparr>)))"
    by (simp add: sparse_iter_next_def i0_def sparse_iter_search_spec)
  have adv: "fst (sparse_iter_indices (Some a) h
               (sparse_iter_reset (sparse_iter_advance n (Some a) h (Some i0)))) = ks" for n
  proof -
    have "ops i0 = Some indexarray_sparse_ops" by (simp add: i0_def)
    from sparse_iter_advance_keeps [OF this, of n "Some a" h] obtain i' where
      i': "sparse_iter_advance n (Some a) h (Some i0) = Some i'"
        "ops i' = Some indexarray_sparse_ops" "it_capacity i' = it_capacity i0" by blast
    have "it_capacity i0 = cap" by (simp add: i0_def)
    with sparse_iter_reset_indices [OF i'(2), of "Some a" h] show ?thesis
      by (simp add: i' tbl ks_def)
  qed
  have anyst: "fst (sparse_iter_indices (Some a) h
               (sparse_iter_reset
                  (Some \<lparr>ops = Some indexarray_sparse_ops, current = c, it_capacity = cap,
                         positioned = p\<rparr>))) = ks" for c p
    using sparse_iter_reset_indices [of "\<lparr>ops = Some indexarray_sparse_ops, current = c,
        it_capacity = cap, positioned = p\<rparr>" indexarray_sparse_ops "Some a" h]
    by (simp add: tbl ks_def)
  have "sorted_wrt (<) ks" unfolding ks_def by (intro sorted_wrt_filter) simp
  moreover have "distinct ks" by (simp add: ks_def)
  moreover have "set ks = {k. k < cap \<and> \<not> indexarray_is_empty_slot (Some a) k h}"
    by (auto simp: ks_def)
  ultimately show ?thesis
    using run rs nx adv anyst by (simp add: mk cap_def [symmetric] ks_def [symmetric])
qed

text \<open>
  An instance: five one-byte slots, of which 0, 2 and 4 are occupied; the reset after
  the whole iteration, and the reset after two calls of \<^verbatim>\<open>next\<close>, when the iterator
  is positioned on slot 2.
\<close>

theorem sparse_iterator_witness:
  "sparse_iter_indices (Some (bytes_array 0 5 True 0)) [Some [1, 0, 2, 0, 3]]
     (indexarray_create_iterator True (Some (bytes_array 0 5 True 0)) [Some [1, 0, 2, 0, 3]]) =
     ([0, 2, 4],
      Some \<lparr>ops = Some indexarray_sparse_ops, current = 5, it_capacity = 5, positioned = False\<rparr>) \<and>
   \<not> fst (sparse_iter_next (Some (bytes_array 0 5 True 0)) [Some [1, 0, 2, 0, 3]]
       (Some \<lparr>ops = Some indexarray_sparse_ops, current = 5, it_capacity = 5, positioned = False\<rparr>)) \<and>
   fst (sparse_iter_indices (Some (bytes_array 0 5 True 0)) [Some [1, 0, 2, 0, 3]]
       (sparse_iter_reset
         (Some \<lparr>ops = Some indexarray_sparse_ops, current = 5, it_capacity = 5, positioned = False\<rparr>))) =
     [0, 2, 4] \<and>
   sparse_iter_current_index
     (sparse_iter_advance 2 (Some (bytes_array 0 5 True 0)) [Some [1, 0, 2, 0, 3]]
       (indexarray_create_iterator True (Some (bytes_array 0 5 True 0)) [Some [1, 0, 2, 0, 3]])) = 2 \<and>
   fst (sparse_iter_indices (Some (bytes_array 0 5 True 0)) [Some [1, 0, 2, 0, 3]]
       (sparse_iter_reset
         (sparse_iter_advance 2 (Some (bytes_array 0 5 True 0)) [Some [1, 0, 2, 0, 3]]
           (indexarray_create_iterator True (Some (bytes_array 0 5 True 0)) [Some [1, 0, 2, 0, 3]])))) =
     [0, 2, 4]"
proof -
  have c: "indexarray_capacity (Some (bytes_array 0 5 True 0)) = 5" by code_simp
  have f: "filter (\<lambda>k. \<not> indexarray_is_empty_slot (Some (bytes_array 0 5 True 0)) k [Some [1, 0, 2, 0, 3]])
             [0..<5] = [0, 2, 4]" by code_simp
  have it: "snd (sparse_iter_indices (Some (bytes_array 0 5 True 0)) [Some [1, 0, 2, 0, 3]]
     (indexarray_create_iterator True (Some (bytes_array 0 5 True 0)) [Some [1, 0, 2, 0, 3]])) =
      Some \<lparr>ops = Some indexarray_sparse_ops, current = 5, it_capacity = 5, positioned = False\<rparr>"
    by (simp add: indexarray_create_iterator_def sparse_iterator_new_def indexarray_sparse_ops_def
        sparse_iter_indices_spec c)
  have mid: "sparse_iter_current_index
     (sparse_iter_advance 2 (Some (bytes_array 0 5 True 0)) [Some [1, 0, 2, 0, 3]]
       (indexarray_create_iterator True (Some (bytes_array 0 5 True 0)) [Some [1, 0, 2, 0, 3]])) = 2"
    by code_simp
  from sparse_iterator_visits_occupied [where a = "bytes_array 0 5 True 0" and h = "[Some [1, 0, 2, 0, 3]]"]
  have "(\<forall>n. fst (sparse_iter_indices (Some (bytes_array 0 5 True 0)) [Some [1, 0, 2, 0, 3]]
                (sparse_iter_reset
                  (sparse_iter_advance n (Some (bytes_array 0 5 True 0)) [Some [1, 0, 2, 0, 3]]
                    (indexarray_create_iterator True (Some (bytes_array 0 5 True 0))
                       [Some [1, 0, 2, 0, 3]])))) = [0, 2, 4]) \<and>
        fst (sparse_iter_indices (Some (bytes_array 0 5 True 0)) [Some [1, 0, 2, 0, 3]]
               (indexarray_create_iterator True (Some (bytes_array 0 5 True 0)) [Some [1, 0, 2, 0, 3]])) =
          [0, 2, 4] \<and>
        \<not> fst (sparse_iter_next (Some (bytes_array 0 5 True 0)) [Some [1, 0, 2, 0, 3]]
                 (snd (sparse_iter_indices (Some (bytes_array 0 5 True 0)) [Some [1, 0, 2, 0, 3]]
                    (indexarray_create_iterator True (Some (bytes_array 0 5 True 0))
                       [Some [1, 0, 2, 0, 3]])))) \<and>
        fst (sparse_iter_indices (Some (bytes_array 0 5 True 0)) [Some [1, 0, 2, 0, 3]]
               (sparse_iter_reset
                 (snd (sparse_iter_indices (Some (bytes_array 0 5 True 0)) [Some [1, 0, 2, 0, 3]]
                    (indexarray_create_iterator True (Some (bytes_array 0 5 True 0))
                       [Some [1, 0, 2, 0, 3]]))))) = [0, 2, 4]"
    using c f by (auto split: prod.splits)
  then show ?thesis using it mid by (auto simp: prod_eq_iff)
qed

text \<open>
  C6, as amended. Slot reuse: on every well-formed container of at most \<open>2^31\<close>
  slots, for every handle \<open>k\<close> below the capacity such that every slot the circular
  search from the hint visits before \<open>k\<close> is occupied (\<open>k\<close> is the \<open>m\<close>-th slot from
  the hint; this holds for every \<open>k\<close> when the container is fully occupied),
  \<^verbatim>\<open>indexarray_remove_at\<close> on \<open>k\<close> followed by one add of a value returns \<open>k\<close>.
\<close>

theorem slot_reuse:
  assumes "well_formed a h" "m < indexarray_capacity (Some a)"
    "k = (next_slot a + m) mod indexarray_capacity (Some a)"
    "\<forall>m' < m. \<not> indexarray_is_empty_slot (Some a)
                   ((next_slot a + m') mod indexarray_capacity (Some a)) h"
    "val \<noteq> Null" "indexarray_capacity (Some a) \<le> 2147483648"
  shows "(case indexarray_remove_at (Some a) k h of
            (rc, ia1, h1) \<Rightarrow> rc = OK \<and> fst (indexarray_add reply ia1 val h1) = int k)"
proof -
  let ?cap = "indexarray_capacity (Some a)"
  let ?z = "replicate (indexarray_stride (Some a)) (0::byte)"
  define h1 where "h1 = store h (slot_ptr a k) ?z"
  have k: "k < ?cap" using assms(2,3) by simp
  have rm: "indexarray_remove_at (Some a) k h = (OK, Some a, h1)"
    using k by (simp add: remove_at_eq h1_def)
  have "slot_bytes a h1 k = ?z"
    unfolding h1_def using assms(1) k by (intro slot_store_same) simp_all
  then have e: "bytes_all_zero (slot_bytes a h1 ((next_slot a + m) mod ?cap))"
    using assms(3) by simp
  have occ: "\<forall>m' < m. \<not> bytes_all_zero (slot_bytes a h1 ((next_slot a + m') mod ?cap))"
  proof (intro allI impI)
    fix m' assume m': "m' < m"
    have ne: "k \<noteq> (next_slot a + m') mod ?cap"
      using rotation_inj [OF m' assms(2), of "next_slot a"] assms(3) by simp
    have "slot_bytes a h1 ((next_slot a + m') mod ?cap) = slot_bytes a h ((next_slot a + m') mod ?cap)"
      unfolding h1_def using assms(1) ne by (intro slot_store_other) simp_all
    moreover have "\<not> bytes_all_zero (slot_bytes a h ((next_slot a + m') mod ?cap))"
      using assms(4) m' by (simp add: is_empty_slot_eq)
    ultimately show "\<not> bytes_all_zero (slot_bytes a h1 ((next_slot a + m') mod ?cap))" by simp
  qed
  from scan_of_first [OF assms(2) e occ] have s: "scan_of a h1 = Some k" using assms(3) by simp
  have "k < 2147483648" using k assms(6) by simp
  then have "int_of_usize k = int k" by (rule int_of_usize_small)
  with add_found [OF s assms(5)] show ?thesis by (simp add: rm)
qed

text \<open>
  An instance: three occupied slots, hint 0; handle 1 is removed and issued again.
\<close>

theorem slot_reuse_witness:
  "well_formed (bytes_array 0 3 True 0) [Some [1, 2, 3], Some [4]] \<and>
   \<not> indexarray_is_empty_slot (Some (bytes_array 0 3 True 0)) 0 [Some [1, 2, 3], Some [4]] \<and>
   indexarray_remove_at (Some (bytes_array 0 3 True 0)) 1 [Some [1, 2, 3], Some [4]] =
     (OK, Some (bytes_array 0 3 True 0), [Some [1, 0, 3], Some [4]]) \<and>
   fst (indexarray_add None (Some (bytes_array 0 3 True 0)) (Ptr 1 0) [Some [1, 0, 3], Some [4]]) = 1"
proof -
  have wf: "well_formed (bytes_array 0 3 True 0) [Some [1, 2, 3], Some [4]]" by code_simp
  have m: "1 < indexarray_capacity (Some (bytes_array 0 3 True 0))" by code_simp
  have k: "1 = (next_slot (bytes_array 0 3 True 0) + 1) mod indexarray_capacity (Some (bytes_array 0 3 True 0))"
    by code_simp
  have o: "\<not> indexarray_is_empty_slot (Some (bytes_array 0 3 True 0)) 0 [Some [1, 2, 3], Some [4]]"
    by code_simp
  have nx: "(next_slot (bytes_array 0 3 True 0) + 0) mod indexarray_capacity (Some (bytes_array 0 3 True 0)) = 0"
    by code_simp
  have occ: "\<forall>m' < 1. \<not> indexarray_is_empty_slot (Some (bytes_array 0 3 True 0))
       ((next_slot (bytes_array 0 3 True 0) + m') mod indexarray_capacity (Some (bytes_array 0 3 True 0)))
       [Some [1, 2, 3], Some [4]]"
    using o nx by simp
  have val: "Ptr 1 0 \<noteq> Null" by simp
  have cb: "indexarray_capacity (Some (bytes_array 0 3 True 0)) \<le> 2147483648"
    by (simp add: bytes_array_props)
  have rm: "indexarray_remove_at (Some (bytes_array 0 3 True 0)) 1 [Some [1, 2, 3], Some [4]] =
     (OK, Some (bytes_array 0 3 True 0), [Some [1, 0, 3], Some [4]])" by code_simp
  from slot_reuse [OF wf m k occ val cb, where reply = None] wf o rm show ?thesis by simp
qed

text \<open>
  C6 as stated fails in two ways. When another empty slot comes first in the search: in
  a fresh container of three slots, after two adds the hint is 2 and slot 2 is empty;
  handle 0 is removed, and the next add returns 2, not 0. And beyond the range of
  \<^verbatim>\<open>int\<close>: in the fully occupied view of a caller's \<open>2^31 + 1\<close> bytes, slot \<open>2^31\<close>
  is removed, and the next add, which fills that slot again, returns \<open>- 2^31\<close>.
\<close>

theorem slot_reuse_counterexample:
  "indexarray_new True (Some []) 3 1 [Some [1], Some [2], Some [3]] =
     (Some (bytes_array 3 3 True 0), [Some [1], Some [2], Some [3], Some [0, 0, 0]]) \<and>
   indexarray_add None (Some (bytes_array 3 3 True 0)) (Ptr 0 0)
     [Some [1], Some [2], Some [3], Some [0, 0, 0]] =
     (0, Some (bytes_array 3 3 True 1), [Some [1], Some [2], Some [3], Some [1, 0, 0]]) \<and>
   indexarray_add None (Some (bytes_array 3 3 True 1)) (Ptr 1 0)
     [Some [1], Some [2], Some [3], Some [1, 0, 0]] =
     (1, Some (bytes_array 3 3 True 2), [Some [1], Some [2], Some [3], Some [1, 2, 0]]) \<and>
   indexarray_remove_at (Some (bytes_array 3 3 True 2)) 0
     [Some [1], Some [2], Some [3], Some [1, 2, 0]] =
     (OK, Some (bytes_array 3 3 True 2), [Some [1], Some [2], Some [3], Some [0, 2, 0]]) \<and>
   indexarray_add None (Some (bytes_array 3 3 True 2)) (Ptr 2 0)
     [Some [1], Some [2], Some [3], Some [0, 2, 0]] =
     (2, Some (bytes_array 3 3 True 0), [Some [1], Some [2], Some [3], Some [0, 2, 3]]) \<and>
   indexarray_from_buffer True True (Ptr 0 0) (Ptr 0 2147483649) 1 =
     Some (bytes_array 0 2147483649 False 0) \<and>
   no_empty_slot (Some (bytes_array 0 2147483649 False 0))
     [Some (replicate 2147483648 1 @ [1]), Some [7]] \<and>
   indexarray_remove_at (Some (bytes_array 0 2147483649 False 0)) 2147483648
     [Some (replicate 2147483648 1 @ [1]), Some [7]] =
     (OK, Some (bytes_array 0 2147483649 False 0), [Some (replicate 2147483648 1 @ [0]), Some [7]]) \<and>
   fst (indexarray_add None (Some (bytes_array 0 2147483649 False 0)) (Ptr 1 0)
          [Some (replicate 2147483648 1 @ [0]), Some [7]]) = - 2147483648"
proof -
  have s: "indexarray_new True (Some []) 3 1 [Some [1], Some [2], Some [3]] =
     (Some (bytes_array 3 3 True 0), [Some [1], Some [2], Some [3], Some [0, 0, 0]]) \<and>
   indexarray_add None (Some (bytes_array 3 3 True 0)) (Ptr 0 0)
     [Some [1], Some [2], Some [3], Some [0, 0, 0]] =
     (0, Some (bytes_array 3 3 True 1), [Some [1], Some [2], Some [3], Some [1, 0, 0]]) \<and>
   indexarray_add None (Some (bytes_array 3 3 True 1)) (Ptr 1 0)
     [Some [1], Some [2], Some [3], Some [1, 0, 0]] =
     (1, Some (bytes_array 3 3 True 2), [Some [1], Some [2], Some [3], Some [1, 2, 0]]) \<and>
   indexarray_remove_at (Some (bytes_array 3 3 True 2)) 0
     [Some [1], Some [2], Some [3], Some [1, 2, 0]] =
     (OK, Some (bytes_array 3 3 True 2), [Some [1], Some [2], Some [3], Some [0, 2, 0]]) \<and>
   indexarray_add None (Some (bytes_array 3 3 True 2)) (Ptr 2 0)
     [Some [1], Some [2], Some [3], Some [0, 2, 0]] =
     (2, Some (bytes_array 3 3 True 0), [Some [1], Some [2], Some [3], Some [0, 2, 3]])"
    by code_simp
  have v: "indexarray_from_buffer True True (Ptr 0 0) (Ptr 0 2147483649) 1 =
     Some (bytes_array 0 2147483649 False 0)"
    by (simp add: indexarray_from_buffer_def bytes_array_def)
  have f: "no_empty_slot (Some (bytes_array 0 2147483649 False 0))
     [Some (replicate 2147483648 1 @ [1]), Some [7]]"
    by (simp add: no_empty_slot_iff bytes_array_full)
  have r: "indexarray_remove_at (Some (bytes_array 0 2147483649 False 0)) 2147483648
     [Some (replicate 2147483648 1 @ [1]), Some [7]] =
     (OK, Some (bytes_array 0 2147483649 False 0), [Some (replicate 2147483648 1 @ [0]), Some [7]])"
    by (simp add: remove_at_eq bytes_array_props store_def)
  have a: "fst (indexarray_add None (Some (bytes_array 0 2147483649 False 0)) (Ptr 1 0)
          [Some (replicate 2147483648 1 @ [0]), Some [7]]) = - 2147483648"
    using bytes_array_add_last [of 0 2147483648 None False 7] by (simp add: int_of_usize_huge)
  from s v f r a show ?thesis by blast
qed

text \<open>
  C7. \<^verbatim>\<open>indexarray_remove_at\<close> on a well-formed container returns \<open>ERR\<close> exactly when
  the handle is not below the capacity. For a handle below the capacity, whatever the
  slot held, it returns \<open>OK\<close>, leaves the struct of the index array, and the hint with
  it, as it was, and fills the slot with zeros; afterwards
  \<^verbatim>\<open>indexarray_is_empty_slot\<close> is true of the handle and \<^verbatim>\<open>indexarray_get_at\<close>
  returns \<open>ERR\<close> and leaves the out buffer as it was.
\<close>

theorem remove_at_contract:
  assumes "well_formed a h"
  shows "(fst (indexarray_remove_at (Some a) k h) = ERR) = (indexarray_capacity (Some a) \<le> k) \<and>
    (k < indexarray_capacity (Some a) \<longrightarrow>
      (case indexarray_remove_at (Some a) k h of
         (rc, ia', h') \<Rightarrow>
           rc = OK \<and> ia' = Some a \<and>
           slot_bytes a h' k = replicate (indexarray_stride (Some a)) 0 \<and>
           indexarray_is_empty_slot ia' k h' \<and>
           indexarray_get_at ia' k (Some out) h' = (ERR, Some out)))"
proof (cases "indexarray_capacity (Some a) \<le> k")
  case True
  then show ?thesis by (simp add: remove_at_eq)
next
  case False
  then have k: "k < indexarray_capacity (Some a)" by simp
  have "slot_bytes a (store h (slot_ptr a k) (replicate (indexarray_stride (Some a)) 0)) k
        = replicate (indexarray_stride (Some a)) 0"
    using assms k by (intro slot_store_same) simp_all
  then show ?thesis
    using False by (simp add: remove_at_eq is_empty_slot_eq get_at_eq)
qed

text \<open>
  An instance: two one-byte slots holding 5 and 0, handles 0 and 2.
\<close>

theorem remove_at_contract_witness:
  "well_formed (bytes_array 0 2 True 1) [Some [5, 0]] \<and>
   indexarray_remove_at (Some (bytes_array 0 2 True 1)) 0 [Some [5, 0]] =
     (OK, Some (bytes_array 0 2 True 1), [Some [0, 0]]) \<and>
   indexarray_is_empty_slot (Some (bytes_array 0 2 True 1)) 0 [Some [0, 0]] \<and>
   indexarray_get_at (Some (bytes_array 0 2 True 1)) 0 (Some [9]) [Some [0, 0]] = (ERR, Some [9]) \<and>
   fst (indexarray_remove_at (Some (bytes_array 0 2 True 1)) 2 [Some [5, 0]]) = ERR"
proof -
  have wf: "well_formed (bytes_array 0 2 True 1) [Some [5, 0]]" by code_simp
  have cap: "indexarray_capacity (Some (bytes_array 0 2 True 1)) = 2" by code_simp
  have rm: "indexarray_remove_at (Some (bytes_array 0 2 True 1)) 0 [Some [5, 0]] =
     (OK, Some (bytes_array 0 2 True 1), [Some [0, 0]])" by code_simp
  from remove_at_contract [OF wf, where k = 0 and out = "[9]"] remove_at_contract [OF wf, where k = 2 and out = "[9]"] wf cap rm
  show ?thesis by simp
qed

text \<open>
  C8, as amended. Capacity: from every well-formed container, after every sequence of
  adds, removals and clears, whatever the allocator answers, the capacity is at least
  what it was, the next operation does not lower it, and the next operation raises it
  exactly when it is an add with a value, onto a container with no empty slot, for
  which the allocator has memory. An add onto a container with no empty slot for which
  the allocator has no memory returns \<open>ERR\<close>, that is -1, and leaves the container,
  and so its capacity, and the heap as they were.
\<close>

theorem capacity_monotone:
  assumes "well_formed a h" "run prog (Some a, h) = (ia1, h1)" "apply_op op (ia1, h1) = (ia2, h2)"
  shows "indexarray_capacity (Some a) \<le> indexarray_capacity ia1 \<and>
         indexarray_capacity ia1 \<le> indexarray_capacity ia2 \<and>
         (indexarray_capacity ia1 < indexarray_capacity ia2) = grows op (ia1, h1) \<and>
         (no_empty_slot ia1 h1 \<longrightarrow>
            indexarray_add None ia1 val h1 = (ERR, ia1, h1) \<and>
            apply_op (Add val None) (ia1, h1) = (ia1, h1))"
proof -
  from run_invariant [OF assms(1,2)] obtain a1 where a1: "ia1 = Some a1" "well_formed a1 h1"
    "indexarray_capacity (Some a) \<le> indexarray_capacity (Some a1)" by blast
  have "indexarray_add None (Some a1) val h1 = (ERR, Some a1, h1)" if "no_empty_slot (Some a1) h1"
    using that a1(2) by (intro add_grow_fail well_formed_coll) (simp add: no_empty_slot_iff)
  moreover from apply_op_step [OF a1(2)] assms(3) a1
  have "indexarray_capacity (Some a) \<le> indexarray_capacity ia1 \<and>
         indexarray_capacity ia1 \<le> indexarray_capacity ia2 \<and>
         (indexarray_capacity ia1 < indexarray_capacity ia2) = grows op (ia1, h1)" by auto
  ultimately show ?thesis using a1(1) by simp
qed

text \<open>
  An instance: one occupied slot; a removal and an add that reuses the slot keep the
  capacity 1; the next add returns \<open>ERR\<close> when the allocator has no memory and grows
  the capacity to 2 when it has.
\<close>

theorem capacity_monotone_witness:
  "well_formed (bytes_array 0 1 True 0) [Some [5], Some [6], Some [7]] \<and>
   run [Remove_at 0, Add (Ptr 1 0) None] (Some (bytes_array 0 1 True 0), [Some [5], Some [6], Some [7]]) =
     (Some (bytes_array 0 1 True 0), [Some [6], Some [6], Some [7]]) \<and>
   no_empty_slot (Some (bytes_array 0 1 True 0)) [Some [6], Some [6], Some [7]] \<and>
   indexarray_add None (Some (bytes_array 0 1 True 0)) (Ptr 2 0) [Some [6], Some [6], Some [7]] =
     (ERR, Some (bytes_array 0 1 True 0), [Some [6], Some [6], Some [7]]) \<and>
   apply_op (Add (Ptr 2 0) (Some [])) (Some (bytes_array 0 1 True 0), [Some [6], Some [6], Some [7]]) =
     (Some (bytes_array 3 2 True 2), [None, Some [6], Some [7], Some [6, 7]]) \<and>
   indexarray_capacity (Some (bytes_array 0 1 True 0)) = 1 \<and>
   indexarray_capacity (Some (bytes_array 3 2 True 2)) = 2 \<and>
   grows (Add (Ptr 2 0) (Some [])) (Some (bytes_array 0 1 True 0), [Some [6], Some [6], Some [7]])"
proof -
  have wf: "well_formed (bytes_array 0 1 True 0) [Some [5], Some [6], Some [7]]" by code_simp
  have r: "run [Remove_at 0, Add (Ptr 1 0) None] (Some (bytes_array 0 1 True 0), [Some [5], Some [6], Some [7]]) =
     (Some (bytes_array 0 1 True 0), [Some [6], Some [6], Some [7]])" by code_simp
  have s: "apply_op (Add (Ptr 2 0) (Some [])) (Some (bytes_array 0 1 True 0), [Some [6], Some [6], Some [7]]) =
     (Some (bytes_array 3 2 True 2), [None, Some [6], Some [7], Some [6, 7]])" by code_simp
  have f: "no_empty_slot (Some (bytes_array 0 1 True 0)) [Some [6], Some [6], Some [7]]" by code_simp
  have c1: "indexarray_capacity (Some (bytes_array 0 1 True 0)) = 1" by code_simp
  have c2: "indexarray_capacity (Some (bytes_array 3 2 True 2)) = 2" by code_simp
  from capacity_monotone [OF wf r s, where val = "Ptr 2 0"] wf r s f c1 c2 show ?thesis by simp
qed

text \<open>
  C8 as stated fails when the allocator has no memory: the add onto a fully occupied
  container of capacity 2 returns -1 and leaves the container as it was, with capacity
  2.
\<close>

theorem capacity_monotone_counterexample:
  "no_empty_slot (Some (bytes_array 0 2 True 0)) [Some [5, 6], Some [7]] \<and>
   indexarray_add None (Some (bytes_array 0 2 True 0)) (Ptr 1 0) [Some [5, 6], Some [7]] =
     (- 1, Some (bytes_array 0 2 True 0), [Some [5, 6], Some [7]]) \<and>
   apply_op (Add (Ptr 1 0) None) (Some (bytes_array 0 2 True 0), [Some [5, 6], Some [7]]) =
     (Some (bytes_array 0 2 True 0), [Some [5, 6], Some [7]]) \<and>
   indexarray_capacity (Some (bytes_array 0 2 True 0)) = 2"
  by code_simp

text \<open>
  C9. With a \<^verbatim>\<open>NULL\<close> container, \<^verbatim>\<open>indexarray_add\<close> returns -1,
  \<^verbatim>\<open>indexarray_get_at\<close> and \<^verbatim>\<open>indexarray_remove_at\<close> return \<open>ERR\<close>,
  \<^verbatim>\<open>indexarray_capacity\<close> and \<^verbatim>\<open>indexarray_stride\<close> return 0 and
  \<^verbatim>\<open>indexarray_is_empty_slot\<close> returns true; \<^verbatim>\<open>indexarray_clear\<close> and
  \<^verbatim>\<open>indexarray_dispose\<close> return, and \<^verbatim>\<open>indexarray_create_iterator\<close> returns
  \<^verbatim>\<open>NULL\<close>. None of them touches the heap or the out buffer.
\<close>

theorem null_container_neutral:
  "indexarray_add reply None val h = (ERR, None, h) \<and>
   indexarray_get_at None k out_value h = (ERR, out_value) \<and>
   indexarray_remove_at None k h = (ERR, None, h) \<and>
   indexarray_capacity None = 0 \<and>
   indexarray_stride None = 0 \<and>
   indexarray_is_empty_slot None k h \<and>
   indexarray_clear None h = (None, h) \<and>
   indexarray_dispose None h = h \<and>
   indexarray_create_iterator it_ok None h = None"
  by (simp add: indexarray_add_def indexarray_get_at_def indexarray_remove_at_def
      indexarray_capacity_def indexarray_stride_def indexarray_is_empty_slot_def
      indexarray_clear_def indexarray_dispose_def indexarray_create_iterator_def)

text \<open>
  An instance, on a heap that holds the caller's value only.
\<close>

theorem null_container_neutral_witness:
  "indexarray_add (Some []) None (Ptr 0 0) [Some [1]] = (ERR, None, [Some [1]]) \<and>
   indexarray_get_at None 0 (Some [9]) [Some [1]] = (ERR, Some [9]) \<and>
   indexarray_remove_at None 0 [Some [1]] = (ERR, None, [Some [1]]) \<and>
   indexarray_capacity None = 0 \<and>
   indexarray_stride None = 0 \<and>
   indexarray_is_empty_slot None 0 [Some [1]]"
  using null_container_neutral [of "Some []" "Ptr 0 0" "[Some [1]]" 0 "Some [9]" True] by simp

text \<open>
  C10, as amended. On every well-formed container of at most \<open>2^31\<close> slots with an
  empty slot, the add of a value whose stride bytes are all zero returns a handle that is
  not negative and is below the capacity, and afterwards \<^verbatim>\<open>indexarray_is_empty_slot\<close>
  is still true of that handle and \<^verbatim>\<open>indexarray_get_at\<close> on it returns \<open>ERR\<close>.
\<close>

theorem zero_value_not_retrievable:
  assumes "well_formed a h" "k < indexarray_capacity (Some a)"
    "indexarray_is_empty_slot (Some a) k h"
    "load h val (indexarray_stride (Some a)) = replicate (indexarray_stride (Some a)) 0"
    "indexarray_capacity (Some a) \<le> 2147483648"
  shows "case indexarray_add reply (Some a) val h of
           (hnd, ia', h') \<Rightarrow>
             0 \<le> hnd \<and> usize_of_int hnd < indexarray_capacity ia' \<and>
             indexarray_is_empty_slot ia' (usize_of_int hnd) h' \<and>
             indexarray_get_at ia' (usize_of_int hnd) (Some out) h' = (ERR, Some out)"
proof -
  let ?s = "indexarray_stride (Some a)"
  let ?z = "replicate ?s (0::byte)"
  from assms(1) have s0: "0 < ?s"
    by (auto elim!: well_formedE simp: indexarray_stride_def collection_get_stride_def)
  have val: "val \<noteq> Null" using assms(4) s0 by (auto simp: load_def)
  have "bytes_all_zero (slot_bytes a h k)"
    using assms(2,3) by (simp add: is_empty_slot_eq)
  then have "scan_of a h \<noteq> None"
    using assms(2) by (auto simp: scan_of_None_iff)
  then obtain k0 where k0: "scan_of a h = Some k0" by blast
  then have lt: "k0 < indexarray_capacity (Some a)" by (simp add: scan_of_Some)
  then have "k0 < 2147483648" using assms(5) by simp
  then have c: "int_of_usize k0 = int k0" "usize_of_int (int k0) = k0"
    by (simp_all add: int_of_usize_small usize_of_int_small)
  have "slot_bytes a (store h (slot_ptr a k0) ?z) k0 = ?z"
    using assms(1) lt by (intro slot_store_same) simp_all
  then show ?thesis
    using lt c by (simp add: add_found [OF k0 val] assms(4) is_empty_slot_eq get_at_eq)
qed

text \<open>
  An instance: slot 1 of two is empty, and stays so under the handle 1.
\<close>

theorem zero_value_not_retrievable_witness:
  "well_formed (bytes_array 0 2 True 1) [Some [5, 0], Some [0]] \<and>
   indexarray_is_empty_slot (Some (bytes_array 0 2 True 1)) 1 [Some [5, 0], Some [0]] \<and>
   indexarray_add None (Some (bytes_array 0 2 True 1)) (Ptr 1 0) [Some [5, 0], Some [0]] =
     (1, Some (bytes_array 0 2 True 0), [Some [5, 0], Some [0]]) \<and>
   indexarray_is_empty_slot (Some (bytes_array 0 2 True 0)) (usize_of_int 1) [Some [5, 0], Some [0]] \<and>
   indexarray_get_at (Some (bytes_array 0 2 True 0)) (usize_of_int 1) (Some [9])
     [Some [5, 0], Some [0]] = (ERR, Some [9])"
proof -
  have wf: "well_formed (bytes_array 0 2 True 1) [Some [5, 0], Some [0]]" by code_simp
  have cap: "1 < indexarray_capacity (Some (bytes_array 0 2 True 1))" by code_simp
  have e: "indexarray_is_empty_slot (Some (bytes_array 0 2 True 1)) 1 [Some [5, 0], Some [0]]"
    by code_simp
  have z: "load [Some [5, 0], Some [0]] (Ptr 1 0) (indexarray_stride (Some (bytes_array 0 2 True 1))) =
           replicate (indexarray_stride (Some (bytes_array 0 2 True 1))) 0" by code_simp
  have cb: "indexarray_capacity (Some (bytes_array 0 2 True 1)) \<le> 2147483648"
    by (simp add: bytes_array_props)
  have add: "indexarray_add None (Some (bytes_array 0 2 True 1)) (Ptr 1 0) [Some [5, 0], Some [0]] =
     (1, Some (bytes_array 0 2 True 0), [Some [5, 0], Some [0]])" by code_simp
  from zero_value_not_retrievable [OF wf cap e z cb, where reply = None and out = "[9]"] wf e add
  show ?thesis by simp
qed

text \<open>
  C10 as stated fails beyond the range of \<^verbatim>\<open>int\<close>: in the view of a caller's
  \<open>2^31 + 1\<close> bytes of which only the last is 0, slot \<open>2^31\<close> is empty, and the add of
  the value \<open>[0]\<close> takes that slot and returns \<open>- 2^31\<close>, a negative handle that is not
  \<open>ERR\<close>.
\<close>

theorem zero_value_not_retrievable_counterexample:
  "indexarray_from_buffer True True (Ptr 0 0) (Ptr 0 2147483649) 1 =
     Some (bytes_array 0 2147483649 False 0) \<and>
   well_formed (bytes_array 0 2147483649 False 0) [Some (replicate 2147483648 1 @ [0]), Some [0]] \<and>
   indexarray_capacity (Some (bytes_array 0 2147483649 False 0)) = 2147483649 \<and>
   indexarray_is_empty_slot (Some (bytes_array 0 2147483649 False 0)) 2147483648
     [Some (replicate 2147483648 1 @ [0]), Some [0]] \<and>
   indexarray_add None (Some (bytes_array 0 2147483649 False 0)) (Ptr 1 0)
     [Some (replicate 2147483648 1 @ [0]), Some [0]] =
     (- 2147483648, Some (bytes_array 0 2147483649 False 0),
      [Some (replicate 2147483648 1 @ [0]), Some [0]])"
proof -
  have v: "indexarray_from_buffer True True (Ptr 0 0) (Ptr 0 2147483649) 1 =
     Some (bytes_array 0 2147483649 False 0)"
    by (simp add: indexarray_from_buffer_def bytes_array_def)
  have w: "well_formed (bytes_array 0 2147483649 False 0)
             [Some (replicate 2147483648 1 @ [0]), Some [0]]"
    by (rule bytes_array_well_formed) simp
  have c: "indexarray_capacity (Some (bytes_array 0 2147483649 False 0)) = 2147483649"
    by (simp add: bytes_array_props)
  have e: "indexarray_is_empty_slot (Some (bytes_array 0 2147483649 False 0)) 2147483648
     [Some (replicate 2147483648 1 @ [0]), Some [0]]"
    by (simp add: is_empty_slot_eq bytes_array_props bytes_array_slot nth_append)
  have a: "indexarray_add None (Some (bytes_array 0 2147483649 False 0)) (Ptr 1 0)
     [Some (replicate 2147483648 1 @ [0]), Some [0]] =
     (- 2147483648, Some (bytes_array 0 2147483649 False 0),
      [Some (replicate 2147483648 1 @ [0]), Some [0]])"
    using bytes_array_add_last [of 0 2147483648 None False 0] by (simp add: int_of_usize_huge)
  from v w c e a show ?thesis by blast
qed

end
